theory Spec2Isabelle
  imports Main "HOL-Library.Sublist"
begin

section \<open>Strings\<close>

text \<open>
  A Python \<open>str\<close> is a sequence of Unicode code points; it is modelled as the list of
  their numbers. ASCII literals of the source are written through \<open>ascii\<close>.
\<close>

type_synonym pystr = "nat list"

definition ascii :: "string \<Rightarrow> pystr" where
  "ascii s = map of_char s"

text \<open>
  \<open>str.replace(old, new)\<close>: the occurrences of \<open>old\<close> are found from the left, without
  overlap, and each is replaced by \<open>new\<close>. With an empty \<open>old\<close> Python puts \<open>new\<close> before
  every character and at the end.
\<close>

fun replace_ne :: "pystr \<Rightarrow> pystr \<Rightarrow> pystr \<Rightarrow> pystr" where
  "replace_ne [] old new = []"
| "replace_ne (c # cs) old new =
     (if prefix old (c # cs) then new @ replace_ne (drop (length old - 1) cs) old new
      else c # replace_ne cs old new)"

definition replace :: "pystr \<Rightarrow> pystr \<Rightarrow> pystr \<Rightarrow> pystr" where
  "replace s old new =
     (if old = [] then new @ concat (map (\<lambda>c. c # new) s) else replace_ne s old new)"

section \<open>Month names\<close>

text \<open>
  The month names of the source are Arabic words; they are given by their code points
  and named after the month: \<open>ma_\<close> for a Moroccan name that the table rewrites, \<open>ar_\<close>
  for a standard name. In hexadecimal, in reading order:
  \<^item> \<open>ar_january\<close>: U+064A U+0646 U+0627 U+064A U+0631
  \<^item> \<open>ar_february\<close>: U+0641 U+0628 U+0631 U+0627 U+064A U+0631
  \<^item> \<open>ar_march\<close>: U+0645 U+0627 U+0631 U+0633
  \<^item> \<open>ar_april\<close>: U+0623 U+0628 U+0631 U+064A U+0644
  \<^item> \<open>ma_may\<close>: U+0645 U+0627 U+064A
  \<^item> \<open>ar_may\<close>: U+0645 U+0627 U+064A U+0648
  \<^item> \<open>ar_june\<close>: U+064A U+0648 U+0646 U+064A U+0648
  \<^item> \<open>ma_july\<close>: U+064A U+0648 U+0644 U+064A U+0648 U+0632
  \<^item> \<open>ar_july\<close>: U+064A U+0648 U+0644 U+064A U+0648
  \<^item> \<open>ma_august\<close>: U+063A U+0634 U+062A
  \<^item> \<open>ar_august\<close>: U+0623 U+063A U+0633 U+0637 U+0633
  \<^item> \<open>ma_september\<close>: U+0634 U+062A U+0646 U+0628 U+0631
  \<^item> \<open>ar_september\<close>: U+0633 U+0628 U+062A U+0645 U+0628 U+0631
  \<^item> \<open>ar_october\<close>: U+0623 U+0643 U+062A U+0648 U+0628 U+0631
  \<^item> \<open>ma_november\<close>: U+0646 U+0648 U+0646 U+0628 U+0631
  \<^item> \<open>ar_november\<close>: U+0646 U+0648 U+0641 U+0645 U+0628 U+0631
  \<^item> \<open>ma_december\<close>: U+062F U+062C U+0646 U+0628 U+0631
  \<^item> \<open>ar_december\<close>: U+062F U+064A U+0633 U+0645 U+0628 U+0631
\<close>

abbreviation ar_january :: pystr where
  "ar_january \<equiv> [1610, 1606, 1575, 1610, 1585]"

abbreviation ar_february :: pystr where
  "ar_february \<equiv> [1601, 1576, 1585, 1575, 1610, 1585]"

abbreviation ar_march :: pystr where
  "ar_march \<equiv> [1605, 1575, 1585, 1587]"

abbreviation ar_april :: pystr where
  "ar_april \<equiv> [1571, 1576, 1585, 1610, 1604]"

abbreviation ma_may :: pystr where
  "ma_may \<equiv> [1605, 1575, 1610]"

abbreviation ar_may :: pystr where
  "ar_may \<equiv> [1605, 1575, 1610, 1608]"

abbreviation ar_june :: pystr where
  "ar_june \<equiv> [1610, 1608, 1606, 1610, 1608]"

abbreviation ma_july :: pystr where
  "ma_july \<equiv> [1610, 1608, 1604, 1610, 1608, 1586]"

abbreviation ar_july :: pystr where
  "ar_july \<equiv> [1610, 1608, 1604, 1610, 1608]"

abbreviation ma_august :: pystr where
  "ma_august \<equiv> [1594, 1588, 1578]"

abbreviation ar_august :: pystr where
  "ar_august \<equiv> [1571, 1594, 1587, 1591, 1587]"

abbreviation ma_september :: pystr where
  "ma_september \<equiv> [1588, 1578, 1606, 1576, 1585]"

abbreviation ar_september :: pystr where
  "ar_september \<equiv> [1587, 1576, 1578, 1605, 1576, 1585]"

abbreviation ar_october :: pystr where
  "ar_october \<equiv> [1571, 1603, 1578, 1608, 1576, 1585]"

abbreviation ma_november :: pystr where
  "ma_november \<equiv> [1606, 1608, 1606, 1576, 1585]"

abbreviation ar_november :: pystr where
  "ar_november \<equiv> [1606, 1608, 1601, 1605, 1576, 1585]"

abbreviation ma_december :: pystr where
  "ma_december \<equiv> [1583, 1580, 1606, 1576, 1585]"

abbreviation ar_december :: pystr where
  "ar_december \<equiv> [1583, 1610, 1587, 1605, 1576, 1585]"

text \<open>
  \<open>MOROCCAN_MONTHS_MAP\<close>, a dict literal: its items are visited in the order they are
  written, which the association list keeps.
\<close>

definition MOROCCAN_MONTHS_MAP :: "(pystr \<times> pystr) list" where
  "MOROCCAN_MONTHS_MAP =
    [(ar_january, ar_january),
     (ar_february, ar_february),
     (ar_march, ar_march),
     (ar_april, ar_april),
     (ma_may, ar_may),
     (ar_june, ar_june),
     (ma_july, ar_july),
     (ma_august, ar_august),
     (ma_september, ar_september),
     (ar_october, ar_october),
     (ma_november, ar_november),
     (ma_december, ar_december)]"

text \<open>The loop of \<open>normalize_moroccan_months\<close> over the items of the table.\<close>

fun replace_all :: "(pystr \<times> pystr) list \<Rightarrow> pystr \<Rightarrow> pystr" where
  "replace_all [] date_text = date_text"
| "replace_all ((moroccan_name, standard_name) # items) date_text =
     replace_all items (replace date_text moroccan_name standard_name)"

text \<open>
  \<open>normalize_moroccan_months\<close>: the argument may be \<open>None\<close>; \<open>not date_text\<close> holds for
  \<open>None\<close> and for the empty string, and both are returned as they are.
\<close>

fun normalize_moroccan_months :: "pystr option \<Rightarrow> pystr option" where
  "normalize_moroccan_months None = None"
| "normalize_moroccan_months (Some date_text) =
     (if date_text = [] then Some date_text
      else Some (replace_all MOROCCAN_MONTHS_MAP date_text))"

section \<open>Post identifiers\<close>

text \<open>
  \<open>re.search(r"-([\d]+)\.html$", article_url)\<close>. In a \<open>str\<close> pattern \<open>\d\<close> is any Unicode
  decimal digit: the ASCII digits and the digits of other scripts. Which code points
  beyond ASCII are decimal digits is a table of the interpreter's Unicode database; it is
  the parameter \<open>nd\<close>.
\<close>

definition is_decimal :: "(nat \<Rightarrow> bool) \<Rightarrow> nat \<Rightarrow> bool" where
  "is_decimal nd c = (48 \<le> c \<and> c \<le> 57 \<or> 128 \<le> c \<and> nd c)"

text \<open>
  \<open>$\<close> without \<open>re.MULTILINE\<close> matches at the end of the string and also just before a
  line feed that is the last character.
\<close>

definition at_end :: "pystr \<Rightarrow> bool" where
  "at_end s = (s = [] \<or> s = [10])"

definition html_at_end :: "pystr \<Rightarrow> bool" where
  "html_at_end s = (prefix (ascii ''.html'') s \<and> at_end (drop 5 s))"

text \<open>
  \<open>[\d]+\<close> is greedy: it first takes every digit there is, then gives digits back one at
  a time while the rest of the pattern fails; at least one digit stays.
\<close>

fun digits_then_html :: "nat \<Rightarrow> pystr \<Rightarrow> pystr option" where
  "digits_then_html 0 s = None"
| "digits_then_html (Suc n) s =
     (if html_at_end (drop (Suc n) s) then Some (take (Suc n) s) else digits_then_html n s)"

definition match_here :: "(nat \<Rightarrow> bool) \<Rightarrow> pystr \<Rightarrow> pystr option" where
  "match_here nd s =
     (case s of [] \<Rightarrow> None
      | c # r \<Rightarrow> if c = 45 then digits_then_html (length (takeWhile (is_decimal nd) r)) r
                 else None)"

text \<open>\<open>re.search\<close> tries every start position from the left; the value is group 1.\<close>

fun re_search :: "(nat \<Rightarrow> bool) \<Rightarrow> pystr \<Rightarrow> pystr option" where
  "re_search nd [] = match_here nd []"
| "re_search nd (c # cs) =
     (case match_here nd (c # cs) of Some g \<Rightarrow> Some g | None \<Rightarrow> re_search nd cs)"

definition extract_post_id_from_url :: "(nat \<Rightarrow> bool) \<Rightarrow> pystr \<Rightarrow> pystr" where
  "extract_post_id_from_url nd article_url =
     (case re_search nd article_url of Some g \<Rightarrow> g | None \<Rightarrow> [])"

section \<open>The store\<close>

type_synonym datetime = int

text \<open>
  A row of \<open>hespress_articles\<close>, without the columns the server fills in (\<open>id\<close>,
  \<open>created_at\<close>). The table is the list of its rows in the order they were inserted.
\<close>

record article =
  postid :: pystr
  article_url :: pystr
  category :: "pystr option"
  title :: pystr
  date_text_ar :: "pystr option"
  date :: "datetime option"
  author :: pystr
  content :: pystr
  featured_image :: pystr
  tags :: "pystr list"

text \<open>
  \<open>insert_query\<close>, once it reaches the table. \<open>INSERT ... ON CONFLICT (postid) DO
  NOTHING\<close>: a row whose \<open>postid\<close> is in the table is dropped without an error.
  \<open>article_url\<close> is \<open>UNIQUE\<close> too and is not named by the conflict clause: a row with a
  new \<open>postid\<close> and a known \<open>article_url\<close> raises a unique violation, which
  \<open>insert_article\<close> catches and logs; the table stays as it was.
\<close>

definition insert_query :: "article list \<Rightarrow> article \<Rightarrow> article list" where
  "insert_query db article_data =
     (if postid article_data \<in> set (map postid db) then db
      else if article_url article_data \<in> set (map article_url db) then db
      else db @ [article_data])"

section \<open>Listing pages\<close>

text \<open>\<open>str.strip()\<close> removes the white space of \<open>str.isspace\<close> at both ends.\<close>

definition isspace :: "nat \<Rightarrow> bool" where
  "isspace c =
     (9 \<le> c \<and> c \<le> 13 \<or> 28 \<le> c \<and> c \<le> 32 \<or> c = 133 \<or> c = 160 \<or> c = 5760 \<or>
      8192 \<le> c \<and> c \<le> 8202 \<or> c = 8232 \<or> c = 8233 \<or> c = 8239 \<or> c = 8287 \<or> c = 12288)"

definition strip :: "pystr \<Rightarrow> pystr" where
  "strip s = rev (dropWhile isspace (rev (dropWhile isspace s)))"

text \<open>
  What the loop of \<open>parse_listing_page\<close> reads of a \<open>div.card\<close>: the text of its
  \<open>span.cat\<close>, the \<open>href\<close> and \<open>title\<close> attributes of its \<open>a.stretched-link\<close>, the text of
  its \<open>small.text-muted.time\<close>; each is \<open>None\<close> when the node or attribute is missing.
  The texts are those of \<open>get_text(strip=True)\<close>.
\<close>

record anchor =
  a_href :: "pystr option"
  a_title :: "pystr option"

record card =
  c_cat :: "pystr option"
  c_link :: "anchor option"
  c_time :: "pystr option"

record summary =
  s_postid :: pystr
  s_article_url :: pystr
  s_category :: "pystr option"
  s_title :: pystr
  s_date_text_ar :: "pystr option"

text \<open>\<open>tag.get(name, "")\<close>.\<close>

definition get_attr :: "pystr option \<Rightarrow> pystr" where
  "get_attr v = (case v of None \<Rightarrow> [] | Some x \<Rightarrow> x)"

fun parse_cards :: "(nat \<Rightarrow> bool) \<Rightarrow> card list \<Rightarrow> summary list" where
  "parse_cards nd [] = []"
| "parse_cards nd (card_div # divs) =
     (case c_link card_div of
        None \<Rightarrow> parse_cards nd divs
      | Some link_a \<Rightarrow>
          (let url = strip (get_attr (a_href link_a));
               article_title = strip (get_attr (a_title link_a))
           in if url = [] then parse_cards nd divs
              else \<lparr>s_postid = extract_post_id_from_url nd url, s_article_url = url,
                    s_category = c_cat card_div, s_title = article_title,
                    s_date_text_ar = c_time card_div\<rparr> # parse_cards nd divs))"

text \<open>The link a card resolves to: empty when it has no link node.\<close>

definition card_url :: "card \<Rightarrow> pystr" where
  "card_url card_div = (case c_link card_div of None \<Rightarrow> [] | Some link_a \<Rightarrow> strip (get_attr (a_href link_a)))"

section \<open>Article pages\<close>

text \<open>An answer of \<open>requests.get\<close>: a \<open>RequestException\<close>, or a status code and a document.\<close>

datatype 'a response = RequestException | Response nat 'a

text \<open>
  What \<open>parse_article_content\<close> reads of the document: the text of \<open>div.article-content\<close>
  without its scripts and styles, the text of the link in \<open>span.author\<close>, the text of
  \<open>span.date-post\<close>, the \<open>src\<close> of the image in the featured-image \<open>div\<close> (\<open>Some None\<close>: an
  image without \<open>src\<close>), and the texts of the tag links of \<open>section.box-tags\<close>.
\<close>

record page =
  p_content :: "pystr option"
  p_author :: "pystr option"
  p_date_post :: "pystr option"
  p_featured_img :: "pystr option option"
  p_tags :: "pystr list option"

record detail =
  d_author :: pystr
  d_content :: pystr
  d_featured_image :: pystr
  d_date_text_ar :: pystr
  d_tags :: "pystr list"

text \<open>
  The world outside the program: the decimal digits beyond ASCII, the answers of the site
  for a listing page and for an article, \<open>dateparser.parse\<close>, and the store. Every
  \<open>with get_connection() ...\<close> block of the source is one use of the store; it goes
  through, or it raises (no connection, a statement that fails) and the \<open>except\<close> branch
  around it runs. \<open>w_store W n\<close> says whether use number \<open>n\<close> of a run goes through.
\<close>

record world =
  w_decimal :: "nat \<Rightarrow> bool"
  w_listing :: "int \<Rightarrow> card list response"
  w_article :: "pystr \<Rightarrow> page response"
  w_dateparser :: "pystr \<Rightarrow> datetime option"
  w_store :: "nat \<Rightarrow> bool"

definition parse_listing_page :: "world \<Rightarrow> int \<Rightarrow> summary list" where
  "parse_listing_page W page_number =
     (case w_listing W page_number of
        RequestException \<Rightarrow> []
      | Response status_code articles_divs \<Rightarrow>
          if status_code \<noteq> 200 then [] else parse_cards (w_decimal W) articles_divs)"

text \<open>The empty dict that \<open>parse_article_content\<close> returns on a failed fetch is \<open>None\<close>.\<close>

definition parse_article_content :: "world \<Rightarrow> pystr \<Rightarrow> detail option" where
  "parse_article_content W url =
     (case w_article W url of
        RequestException \<Rightarrow> None
      | Response status_code soup \<Rightarrow>
          if status_code \<noteq> 200 then None
          else Some \<lparr>d_author = get_attr (p_author soup),
                     d_content = get_attr (p_content soup),
                     d_featured_image =
                       (case p_featured_img soup of None \<Rightarrow> [] | Some src \<Rightarrow> get_attr src),
                     d_date_text_ar = get_attr (p_date_post soup),
                     d_tags = (case p_tags soup of None \<Rightarrow> [] | Some ts \<Rightarrow> ts)\<rparr>)"

definition parse_arabic_date :: "world \<Rightarrow> pystr option \<Rightarrow> datetime option" where
  "parse_arabic_date W text =
     (case text of
        None \<Rightarrow> None
      | Some t \<Rightarrow>
          if t = [] then None
          else (case normalize_moroccan_months (Some t) of
                  None \<Rightarrow> None
                | Some normalized_text \<Rightarrow> w_dateparser W normalized_text))"

section \<open>The crawl\<close>

text \<open>
  The state of a run: the table, the listing pages and the article pages requested so
  far, in order, the counter \<open>total_articles_fetched\<close>, and the number of uses of the
  store so far.
\<close>

record crawl =
  rows :: "article list"
  listing_requests :: "int list"
  article_requests :: "pystr list"
  total_articles_fetched :: nat
  store_calls :: nat

text \<open>One use of the store: whether it goes through, and the state that counts it.\<close>

definition get_connection :: "world \<Rightarrow> crawl \<Rightarrow> bool \<times> crawl" where
  "get_connection W st = (w_store W (store_calls st), st\<lparr>store_calls := Suc (store_calls st)\<rparr>)"

text \<open>
  \<open>create_table\<close>: \<open>CREATE TABLE IF NOT EXISTS\<close> changes no row; when the use of the
  store raises, the error is logged and the run goes on.
\<close>

definition create_table :: "world \<Rightarrow> crawl \<Rightarrow> crawl" where
  "create_table W st = snd (get_connection W st)"

text \<open>
  \<open>article_exists\<close> answers \<open>False\<close> for an empty \<open>postid\<close> without using the store, and
  \<open>False\<close> when the use of the store raises.
\<close>

definition article_exists :: "world \<Rightarrow> pystr \<Rightarrow> crawl \<Rightarrow> bool \<times> crawl" where
  "article_exists W pid st =
     (if pid = [] then (False, st)
      else (case get_connection W st of
              (ok, st1) \<Rightarrow> (if ok then pid \<in> set (map postid (rows st1)) else False, st1)))"

text \<open>\<open>insert_article\<close>: when the use of the store raises, nothing is inserted.\<close>

definition insert_article :: "world \<Rightarrow> article \<Rightarrow> crawl \<Rightarrow> crawl" where
  "insert_article W article_data st =
     (case get_connection W st of
        (ok, st1) \<Rightarrow> if ok then st1\<lparr>rows := insert_query (rows st1) article_data\<rparr> else st1)"

text \<open>
  The record built from a summary and \<open>detail_data\<close>. \<open>detail_data.get("date_text_ar") or
  summary["date_text_ar"]\<close> is the summary's value when the detail has no such key or has
  the empty string.
\<close>

definition article_data :: "world \<Rightarrow> summary \<Rightarrow> detail option \<Rightarrow> article" where
  "article_data W summary detail_data =
     (let text =
            (case detail_data of
               None \<Rightarrow> s_date_text_ar summary
             | Some d \<Rightarrow> if d_date_text_ar d = [] then s_date_text_ar summary
                         else Some (d_date_text_ar d))
      in \<lparr>postid = s_postid summary,
          article_url = s_article_url summary,
          category = s_category summary,
          title = s_title summary,
          date_text_ar = text,
          date = parse_arabic_date W text,
          author = (case detail_data of None \<Rightarrow> [] | Some d \<Rightarrow> d_author d),
          content = (case detail_data of None \<Rightarrow> [] | Some d \<Rightarrow> d_content d),
          featured_image = (case detail_data of None \<Rightarrow> [] | Some d \<Rightarrow> d_featured_image d),
          tags = (case detail_data of None \<Rightarrow> [] | Some d \<Rightarrow> d_tags d)\<rparr>)"

text \<open>The body of the loop over the summaries of a page.\<close>

definition scrape_summary :: "world \<Rightarrow> summary \<Rightarrow> crawl \<Rightarrow> crawl" where
  "scrape_summary W summary st =
     (case article_exists W (s_postid summary) st of
        (found, st1) \<Rightarrow>
          if found then st1
          else
            (let detail_data = parse_article_content W (s_article_url summary)
             in insert_article W (article_data W summary detail_data)
                  (st1\<lparr>article_requests := article_requests st1 @ [s_article_url summary]\<rparr>)))"

fun scrape_summaries :: "world \<Rightarrow> summary list \<Rightarrow> crawl \<Rightarrow> crawl" where
  "scrape_summaries W [] st = st"
| "scrape_summaries W (summary # rest) st =
     scrape_summaries W rest (scrape_summary W summary st)"

fun scrape_pages :: "world \<Rightarrow> int list \<Rightarrow> crawl \<Rightarrow> crawl" where
  "scrape_pages W [] st = st"
| "scrape_pages W (page_num # rest) st =
     (let st1 = st\<lparr>listing_requests := listing_requests st @ [page_num]\<rparr>;
          articles_summaries = parse_listing_page W page_num
      in if articles_summaries = [] then scrape_pages W rest st1
         else scrape_pages W rest
                (scrape_summaries W articles_summaries
                   (st1\<lparr>total_articles_fetched :=
                          total_articles_fetched st1 + length articles_summaries\<rparr>)))"

text \<open>
  \<open>range(start, stop, step)\<close> for a step that is not zero, as here, where it is 1 or -1.
\<close>

function py_range :: "int \<Rightarrow> int \<Rightarrow> int \<Rightarrow> int list" where
  "py_range i stop step =
     (if 0 < step \<and> i < stop \<or> step < 0 \<and> stop < i then i # py_range (i + step) stop step
      else [])"
  by pat_completeness auto
termination
  by (relation "measure (\<lambda>(i, stop, step). nat (if 0 < step then stop - i else i - stop))") auto

declare py_range.simps [simp del]

text \<open>
  What a run leaves: the final state, the number it prints (and logs) in its last lines,
  and the value the call returns. \<open>scrape_hespress\<close> has no \<open>return\<close> statement, so it
  returns \<open>None\<close>. \<open>db\<close> is the table the run starts from.
\<close>

record outcome =
  final :: crawl
  printed :: nat
  returned :: "nat option"

definition scrape_hespress :: "world \<Rightarrow> article list \<Rightarrow> int \<Rightarrow> int \<Rightarrow> outcome" where
  "scrape_hespress W db start_page end_page =
     (let step = (if start_page > end_page then - 1 else 1);
          st = scrape_pages W (py_range start_page (end_page + step) step)
                 (create_table W
                    \<lparr>rows = db, listing_requests = [], article_requests = [],
                     total_articles_fetched = 0, store_calls = 0\<rparr>)
      in \<lparr>final = st, printed = total_articles_fetched st, returned = None\<rparr>)"

section \<open>Notions used to state and prove the properties\<close>

text \<open>The ways to cut a string into two non-empty parts.\<close>

fun splits :: "'a list \<Rightarrow> ('a list \<times> 'a list) list" where
  "splits [] = []"
| "splits [x] = []"
| "splits (x # y # ys) = ([x], y # ys) # map (\<lambda>(a, b). (x # a, b)) (splits (y # ys))"

text \<open>
  \<open>straddles old p t\<close>: in a string \<open>p @ t @ q\<close> an occurrence of \<open>old\<close> begins in \<open>p\<close> and
  ends inside \<open>t\<close>.
\<close>

definition straddles :: "pystr \<Rightarrow> pystr \<Rightarrow> pystr \<Rightarrow> bool" where
  "straddles old p t = list_ex (\<lambda>(x, y). suffix x p \<and> prefix y t) (splits old)"

text \<open>\<open>clash_free old t\<close>: in no string can an occurrence of \<open>old\<close> share a position with one of \<open>t\<close>.\<close>

definition clash_free :: "pystr \<Rightarrow> pystr \<Rightarrow> bool" where
  "clash_free old t =
     (\<not> sublist old t \<and> list_all (\<lambda>u. u = [] \<or> \<not> prefix u old) (suffixes t) \<and>
      list_all (\<lambda>(x, y). \<not> prefix y t \<and> \<not> prefix t y) (splits old))"

text \<open>
  \<open>harmless old new t\<close>: replacing \<open>old\<close> by \<open>new\<close> keeps every occurrence of \<open>t\<close>, because
  nothing changes, or the two cannot meet, or only the last character of \<open>old\<close> is
  deleted and \<open>t\<close> does not hold it.
\<close>

definition harmless :: "pystr \<Rightarrow> pystr \<Rightarrow> pystr \<Rightarrow> bool" where
  "harmless old new t =
     (old \<noteq> [] \<and> t \<noteq> [] \<and>
      (old = new \<or> clash_free old t \<or> butlast old = new \<and> last old \<notin> set t))"

text \<open>The entries of the table that change the text.\<close>

definition rewriting :: "(pystr \<times> pystr) list" where
  "rewriting = filter (\<lambda>(k, v). k \<noteq> v) MOROCCAN_MONTHS_MAP"

text \<open>A table of digits for the examples: the Arabic-Indic digits U+0660 to U+0669.\<close>

definition arabic_indic :: "nat \<Rightarrow> bool" where
  "arabic_indic c = (1632 \<le> c \<and> c \<le> 1641)"

text \<open>
  \<open>covered db summary\<close>: the table has a row with the \<open>postid\<close> or with the
  \<open>article_url\<close> of the summary, so that the store takes no row for it.
\<close>

definition covered :: "article list \<Rightarrow> summary \<Rightarrow> bool" where
  "covered db summary =
     (s_postid summary \<in> set (map postid db) \<or> s_article_url summary \<in> set (map article_url db))"

text \<open>
  Two sites for the examples. Both have one listing page, page 1, with a card for
  \<open>/a-1.html\<close> and a card for \<open>/b.html\<close>. On the first every article page answers 404;
  on the second every article page is there and carries a date. On both every use of the
  store goes through; \<open>store_down\<close> is a world with the same site where none does.
\<close>

definition example_card :: "string \<Rightarrow> card" where
  "example_card url =
     \<lparr>c_cat = Some (ascii ''news''),
      c_link = Some \<lparr>a_href = Some (ascii url), a_title = Some (ascii ''title'')\<rparr>,
      c_time = Some (ascii ''listed'')\<rparr>"

definition example_listing :: "int \<Rightarrow> card list response" where
  "example_listing n =
     (if n = 1 then Response 200 [example_card ''/a-1.html'', example_card ''/b.html'']
      else Response 404 [])"

definition example_page :: page where
  "example_page =
     \<lparr>p_content = Some (ascii ''body''), p_author = Some (ascii ''me''),
      p_date_post = Some (ascii ''dated''), p_featured_img = None, p_tags = None\<rparr>"

definition site_404 :: world where
  "site_404 =
     \<lparr>w_decimal = arabic_indic, w_listing = example_listing,
      w_article = (\<lambda>url. Response 404 example_page), w_dateparser = (\<lambda>t. None),
      w_store = (\<lambda>n. True)\<rparr>"

definition site_200 :: world where
  "site_200 =
     \<lparr>w_decimal = arabic_indic, w_listing = example_listing,
      w_article = (\<lambda>url. Response 200 example_page), w_dateparser = (\<lambda>t. None),
      w_store = (\<lambda>n. True)\<rparr>"

definition store_down :: "world \<Rightarrow> world" where
  "store_down W = W\<lparr>w_store := (\<lambda>n. False)\<rparr>"

section \<open>Replacing one word\<close>

lemma in_set_splits: "(x, y) \<in> set (splits l) \<longleftrightarrow> x \<noteq> [] \<and> y \<noteq> [] \<and> l = x @ y"
proof (induction l arbitrary: x y rule: splits.induct)
  case 1
  then show ?case by simp
next
  case (2 a)
  then show ?case by (auto simp: append_eq_Cons_conv Cons_eq_append_conv)
next
  case (3 a b bs)
  show ?case
  proof
    assume "(x, y) \<in> set (splits (a # b # bs))"
    then consider "x = [a]" "y = b # bs"
      | x' where "x = a # x'" "(x', y) \<in> set (splits (b # bs))"
      by auto
    then show "x \<noteq> [] \<and> y \<noteq> [] \<and> a # b # bs = x @ y"
      using "3.IH" by cases auto
  next
    assume h: "x \<noteq> [] \<and> y \<noteq> [] \<and> a # b # bs = x @ y"
    then obtain x' where x: "x = a # x'" and r: "b # bs = x' @ y"
      by (cases x) auto
    show "(x, y) \<in> set (splits (a # b # bs))"
    proof (cases "x' = []")
      case True
      with x r have "y = b # bs" by simp
      with x True show ?thesis by simp
    next
      case False
      with h r have "(x', y) \<in> set (splits (b # bs))" using "3.IH" by blast
      with x show ?thesis by force
    qed
  qed
qed

text \<open>
  Replacing a word by itself, or a word that is not there, changes nothing; a word that
  is there gives way to the new one.
\<close>

lemma replace_ne_same: "old \<noteq> [] \<Longrightarrow> new = old \<Longrightarrow> replace_ne s old new = s"
proof (induction s old new rule: replace_ne.induct)
  case (1 old new)
  then show ?case by simp
next
  case (2 c cs old new)
  show ?case
  proof (cases "prefix old (c # cs)")
    case True
    then obtain r where r: "c # cs = old @ r" by (auto simp: prefix_def)
    with 2 have d: "drop (length old - 1) cs = r"
      by (cases old) auto
    have "replace_ne (c # cs) old new = new @ replace_ne (drop (length old - 1) cs) old new"
      using True by simp
    also have "\<dots> = old @ r" using 2 True d by simp
    finally show ?thesis using r by simp
  next
    case False
    with 2 show ?thesis by simp
  qed
qed

lemma replace_ne_absent: "\<not> sublist old s \<Longrightarrow> replace_ne s old new = s"
  by (induction s old new rule: replace_ne.induct) (auto simp: sublist_Cons_right)

lemma replace_ne_contains:
  "old \<noteq> [] \<Longrightarrow> sublist old s \<Longrightarrow> sublist new (replace_ne s old new)"
proof (induction s old new rule: replace_ne.induct)
  case (1 old new)
  then show ?case by simp
next
  case (2 c cs old new)
  show ?case
  proof (cases "prefix old (c # cs)")
    case True
    then show ?thesis by (simp add: sublist_append_rightI)
  next
    case False
    with 2 have "sublist new (replace_ne cs old new)" by (simp add: sublist_Cons_right)
    with False show ?thesis by (simp add: sublist_Cons_right)
  qed
qed

text \<open>
  When no occurrence of \<open>old\<close> can begin inside \<open>t\<close> and none reaches into \<open>t\<close> from the
  text before it, the replacement works on the two sides of \<open>t\<close> independently.
\<close>

lemma replace_ne_inside:
  assumes c1: "\<not> sublist old t"
      and c2: "\<forall>u \<in> set (suffixes t). u \<noteq> [] \<longrightarrow> \<not> prefix u old"
  shows "suffix u t \<Longrightarrow> replace_ne (u @ q) old new = u @ replace_ne q old new"
proof (induction u)
  case Nil
  then show ?case by simp
next
  case (Cons c u)
  from Cons.prems have su: "suffix u t" by (rule suffix_ConsD)
  have "\<not> prefix old ((c # u) @ q)"
  proof
    assume "prefix old ((c # u) @ q)"
    then have "prefix old (c # u) \<or> (\<exists>us. old = (c # u) @ us)"
      unfolding prefix_append by blast
    then consider "prefix old (c # u)" | "prefix (c # u) old"
      by (auto intro: prefixI)
    then show False
    proof cases
      case 1
      then have "sublist old (c # u)" by (rule prefix_imp_sublist)
      moreover have "sublist (c # u) t" using Cons.prems by (rule suffix_imp_sublist)
      ultimately have "sublist old t" by (rule sublist_order.order_trans)
      with c1 show False ..
    next
      case 2
      with c2 Cons.prems show False by (auto simp: in_set_suffixes)
    qed
  qed
  with Cons.IH [OF su] show ?case by simp
qed

lemma replace_ne_around:
  assumes ne: "old \<noteq> []" and tne: "t \<noteq> []"
      and c1: "\<not> sublist old t"
      and c2: "\<forall>u \<in> set (suffixes t). u \<noteq> [] \<longrightarrow> \<not> prefix u old"
  shows "(\<forall>(x, y) \<in> set (splits old). suffix x p \<longrightarrow> \<not> prefix y t \<and> \<not> prefix t y) \<Longrightarrow>
         replace_ne (p @ t @ q) old new = replace_ne p old new @ t @ replace_ne q old new"
proof (induction "length p" arbitrary: p rule: less_induct)
  case less
  show ?case
  proof (cases p)
    case Nil
    then show ?thesis using replace_ne_inside [OF c1 c2, of t q new] by simp
  next
    case (Cons c cs)
    have ctx: "\<forall>(x, y) \<in> set (splits old). suffix x r \<longrightarrow> \<not> prefix y t \<and> \<not> prefix t y"
      if "suffix r p" for r
      using less.prems that by (auto intro: suffix_order.order_trans)
    show ?thesis
    proof (cases "prefix old p")
      case True
      then obtain r where r: "p = old @ r" by (auto simp: prefix_def)
      from r ne Cons have d: "drop (length old - 1) (cs @ t @ q) = r @ t @ q"
        "drop (length old - 1) cs = r"
        by (cases old; simp)+
      from r ne have lt: "length r < length p" by simp
      from r have "suffix r p" by (simp add: suffix_def)
      from less.hyps [OF lt ctx [OF this]]
      have "replace_ne (r @ t @ q) old new = replace_ne r old new @ t @ replace_ne q old new" .
      moreover from True Cons have "prefix old (c # cs @ t @ q)"
        by (metis append_Cons prefix_prefix)
      ultimately show ?thesis using True Cons d by simp
    next
      case False
      have np: "\<not> prefix old (p @ t @ q)"
      proof
        assume "prefix old (p @ t @ q)"
        with False obtain y where y: "old = p @ y" "prefix y (t @ q)"
          unfolding prefix_append by blast
        with False have "y \<noteq> []" by auto
        with y Cons have "(p, y) \<in> set (splits old)" by (simp add: in_set_splits)
        with less.prems have "\<not> prefix y t \<and> \<not> prefix t y" by auto
        moreover from y(2) have "prefix y t \<or> prefix t y"
          unfolding prefix_append by (auto intro: prefixI)
        ultimately show False by blast
      qed
      from Cons have lt: "length cs < length p" by simp
      from Cons have "suffix cs p" by (simp add: suffix_def)
      from less.hyps [OF lt ctx [OF this]] np False Cons show ?thesis by simp
    qed
  qed
qed

lemma replace_ne_keeps:
  assumes "old \<noteq> []" "t \<noteq> []" "clash_free old t" "sublist t s"
  shows "sublist t (replace_ne s old new)"
proof -
  from assms(4) obtain p q where s: "s = p @ t @ q" by (auto simp: sublist_def)
  from assms(3) have c: "\<not> sublist old t"
    "\<forall>u \<in> set (suffixes t). u \<noteq> [] \<longrightarrow> \<not> prefix u old"
    "\<forall>(x, y) \<in> set (splits old). suffix x p \<longrightarrow> \<not> prefix y t \<and> \<not> prefix t y"
    by (auto simp: clash_free_def list_all_iff)
  from replace_ne_around [OF assms(1,2) c] s show ?thesis
    by (metis sublist_appendI)
qed

text \<open>
  Replacing \<open>new @ [z]\<close> by \<open>new\<close> deletes characters \<open>z\<close> only: a word without \<open>z\<close>
  stays.
\<close>

lemma sublist_avoid:
  assumes "z \<notin> set t" "sublist t (a @ z # r)"
  shows "sublist t a \<or> sublist t r"
proof -
  from assms(2) obtain ps ss where e: "a @ z # r = (ps @ t) @ ss"
    by (auto simp: sublist_def)
  then consider us where "a = (ps @ t) @ us" | us where "a @ us = ps @ t" "z # r = us @ ss"
    unfolding append_eq_append_conv2 by blast
  then show ?thesis
  proof cases
    case 1
    then show ?thesis by (auto simp: sublist_def)
  next
    case 2
    show ?thesis
    proof (cases us)
      case Nil
      with 2 have "a = ps @ t" by simp
      then show ?thesis by simp
    next
      case (Cons u us')
      with 2 have u: "u = z" "r = us' @ ss" "a @ z # us' = ps @ t" by simp_all
      from u(3) consider vs where "a = ps @ vs" "vs @ z # us' = t"
        | vs where "a @ vs = ps" "z # us' = vs @ t"
        unfolding append_eq_append_conv2 by blast
      then show ?thesis
      proof cases
        case 1
        with assms(1) show ?thesis by auto
      next
        case 2
        show ?thesis
        proof (cases vs)
          case Nil
          with 2 assms(1) show ?thesis by auto
        next
          case (Cons v vs')
          with 2 have "us' = vs' @ t" by simp
          with u(2) show ?thesis by (auto simp: sublist_def)
        qed
      qed
    qed
  qed
qed

lemma replace_ne_Nil_iff: "new \<noteq> [] \<Longrightarrow> replace_ne s old new = [] \<longleftrightarrow> s = []"
  by (cases s) auto

lemma replace_ne_drop_last_prefix:
  "z \<notin> set t \<Longrightarrow> prefix t s \<Longrightarrow> prefix t (replace_ne s (new @ [z]) new)"
proof (induction s "new @ [z]" new arbitrary: t rule: replace_ne.induct)
  case (1 new)
  then show ?case by simp
next
  case (2 c cs new)
  show ?case
  proof (cases "prefix (new @ [z]) (c # cs)")
    case True
    then obtain r where r: "c # cs = new @ z # r" by (auto simp: prefix_def)
    from 2(4) r have "prefix t (new @ z # r)" by simp
    with 2(3) have "prefix t new"
      by (auto simp: prefix_append prefix_Cons)
    with True show ?thesis by simp
  next
    case False
    show ?thesis
    proof (cases t)
      case Nil
      then show ?thesis by simp
    next
      case (Cons a t')
      with 2(4) have "a = c" "prefix t' cs" by simp_all
      moreover from Cons 2(3) have "z \<notin> set t'" by simp
      ultimately show ?thesis using 2(2) [OF False] False Cons by simp
    qed
  qed
qed

lemma replace_ne_drop_last:
  "z \<notin> set t \<Longrightarrow> sublist t s \<Longrightarrow> sublist t (replace_ne s (new @ [z]) new)"
proof (induction s "new @ [z]" new arbitrary: t rule: replace_ne.induct)
  case (1 new)
  then show ?case by simp
next
  case (2 c cs new)
  show ?case
  proof (cases "prefix (new @ [z]) (c # cs)")
    case True
    then obtain r where r: "c # cs = new @ z # r" by (auto simp: prefix_def)
    from r have d: "drop (length (new @ [z]) - 1) cs = r"
      by (cases new) auto
    from 2(4) r have "sublist t (new @ z # r)" by simp
    with 2(3) have "sublist t new \<or> sublist t r"
      by (rule sublist_avoid)
    then show ?thesis
    proof
      assume "sublist t new"
      then have "sublist t (new @ replace_ne r (new @ [z]) new)"
        by (simp add: sublist_append)
      with True d show ?thesis by simp
    next
      assume "sublist t r"
      with 2(1) [OF True 2(3)] d have "sublist t (replace_ne r (new @ [z]) new)" by simp
      then have "sublist t (new @ replace_ne r (new @ [z]) new)"
        by (simp add: sublist_append)
      with True d show ?thesis by simp
    qed
  next
    case False
    from 2(4) consider "prefix t (c # cs)" | "sublist t cs"
      by (auto simp: sublist_Cons_right)
    then show ?thesis
    proof cases
      case 1
      from replace_ne_drop_last_prefix [OF 2(3) 1] show ?thesis
        by (rule prefix_imp_sublist)
    next
      case 2
      with "2.hyps"(2) [OF False "2.prems"(1)] False show ?thesis
        by (simp add: sublist_Cons_right)
    qed
  qed
qed

text \<open>
  The last character of the result is the last character of the text or of \<open>new\<close>.
\<close>

lemma replace_ne_last:
  assumes "new \<noteq> []" "last new \<noteq> g"
  shows "\<not> suffix [g] p \<Longrightarrow> \<not> suffix [g] (replace_ne p old new)"
proof (induction "length p" arbitrary: p rule: less_induct)
  case less
  show ?case
  proof (cases p)
    case Nil
    then show ?thesis by simp
  next
    case (Cons c cs)
    show ?thesis
    proof (cases "prefix old p")
      case True
      let ?r = "drop (length old - 1) cs"
      have "suffix ?r p" using Cons by (metis suffix_ConsI suffix_drop)
      with less.prems have "\<not> suffix [g] ?r" by (auto intro: suffix_order.order_trans)
      moreover have "length ?r < length p" using Cons by simp
      ultimately have "\<not> suffix [g] (replace_ne ?r old new)" by (rule less.hyps [rotated])
      with assms have "\<not> suffix [g] (new @ replace_ne ?r old new)"
        by (cases "replace_ne ?r old new = []") (auto simp: suffix_def append_eq_append_conv2 Cons_eq_append_conv append_eq_Cons_conv)
      with True Cons show ?thesis by simp
    next
      case False
      have "suffix cs p" using Cons by (simp add: suffix_def)
      with less.prems have n: "\<not> suffix [g] cs" by (auto intro: suffix_order.order_trans)
      with less.hyps [of cs] Cons have "\<not> suffix [g] (replace_ne cs old new)" by simp
      moreover from n less.prems Cons assms(1) have "replace_ne cs old new = [] \<Longrightarrow> c \<noteq> g"
        by (auto simp: replace_ne_Nil_iff)
      ultimately show ?thesis using False Cons
        by (auto simp: suffix_Cons)
    qed
  qed
qed

text \<open>
  The same for \<open>replace\<close> and for a run of replacements.
\<close>

lemma replace_keeps:
  assumes "harmless old new t" "sublist t s"
  shows "sublist t (replace s old new)"
proof -
  from assms(1) have ne: "old \<noteq> []" "t \<noteq> []" by (simp_all add: harmless_def)
  from assms(1) consider "old = new" | "clash_free old t" | "butlast old = new" "last old \<notin> set t"
    unfolding harmless_def by blast
  then have "sublist t (replace_ne s old new)"
  proof cases
    case 1
    with ne assms(2) show ?thesis by (simp add: replace_ne_same)
  next
    case 2
    with ne assms(2) show ?thesis by (simp add: replace_ne_keeps)
  next
    case 3
    from 3(1) ne(1) have "old = new @ [last old]" by (metis append_butlast_last_id)
    with replace_ne_drop_last [OF 3(2) assms(2), of new] show ?thesis by simp
  qed
  with ne show ?thesis by (simp add: replace_def)
qed

lemma replace_all_keeps:
  "list_all (\<lambda>(old, new). harmless old new t) items \<Longrightarrow> sublist t s \<Longrightarrow>
   sublist t (replace_all items s)"
proof (induction items arbitrary: s)
  case Nil
  then show ?case by simp
next
  case (Cons item items)
  obtain old new where item: "item = (old, new)" by (cases item)
  with Cons.prems have "sublist t (replace s old new)" by (simp add: replace_keeps)
  with Cons.IH [of "replace s old new"] Cons.prems(1) item show ?case by simp
qed

lemma replace_all_append: "replace_all (a @ b) s = replace_all b (replace_all a s)"
  by (induction a arbitrary: s) auto

lemma replace_all_same:
  "list_all (\<lambda>(old, new). old \<noteq> [] \<and> old = new) items \<Longrightarrow> replace_all items s = s"
  by (induction items arbitrary: s) (auto simp: replace_def replace_ne_same)

lemma replace_contains:
  "old \<noteq> [] \<Longrightarrow> sublist old s \<Longrightarrow> sublist new (replace s old new)"
  by (simp add: replace_def replace_ne_contains)

lemma replace_around:
  assumes "old \<noteq> []" "t \<noteq> []" "\<not> sublist old t"
      and "\<forall>u \<in> set (suffixes t). u \<noteq> [] \<longrightarrow> \<not> prefix u old"
      and "\<forall>(x, y) \<in> set (splits old). suffix x p \<longrightarrow> \<not> prefix y t \<and> \<not> prefix t y"
  shows "replace (p @ t @ q) old new = replace p old new @ t @ replace q old new"
  using replace_ne_around [OF assms] assms(1) by (simp add: replace_def)

lemma replace_last:
  "old \<noteq> [] \<Longrightarrow> new \<noteq> [] \<Longrightarrow> last new \<noteq> g \<Longrightarrow> \<not> suffix [g] p \<Longrightarrow>
   \<not> suffix [g] (replace p old new)"
  by (simp add: replace_def replace_ne_last)

lemmas token_eval = harmless_def clash_free_def sublist_code

section \<open>The month names, one by one\<close>

lemma replace_all_own:
  assumes "list_all (\<lambda>(old, new). harmless old new k) pre" "k \<noteq> []"
      and "list_all (\<lambda>(old, new). harmless old new v) post" "sublist k s"
  shows "sublist v (replace_all (pre @ (k, v) # post) s)"
proof -
  from assms(1,4) have "sublist k (replace_all pre s)" by (rule replace_all_keeps)
  with assms(2) have "sublist v (replace (replace_all pre s) k v)" by (rule replace_contains)
  with assms(3) have "sublist v (replace_all post (replace (replace_all pre s) k v))"
    by (rule replace_all_keeps)
  then show ?thesis by (simp add: replace_all_append)
qed

lemma replace_all_guarded:
  assumes "list_all (\<lambda>(old, new). old \<noteq> [] \<and> old = new) ids"
      and "old \<noteq> []" "t \<noteq> []" "\<not> sublist old t"
      and "\<forall>u \<in> set (suffixes t). u \<noteq> [] \<longrightarrow> \<not> prefix u old"
      and "\<forall>(x, y) \<in> set (splits old). suffix x p \<longrightarrow> \<not> prefix y t \<and> \<not> prefix t y"
      and "list_all (\<lambda>(old, new). harmless old new t) post"
  shows "sublist t (replace_all (ids @ (old, new) # post) (p @ t @ q))"
proof -
  from assms(1) have "replace_all ids (p @ t @ q) = p @ t @ q" by (rule replace_all_same)
  moreover have "sublist t (replace (p @ t @ q) old new)"
    using replace_around [OF assms(2-6)] by simp
  ultimately have "sublist t (replace (replace_all ids (p @ t @ q)) old new)" by simp
  with assms(7) have "sublist t (replace_all post (replace (replace_all ids (p @ t @ q)) old new))"
    by (rule replace_all_keeps)
  then show ?thesis by (simp add: replace_all_append)
qed

lemma keeps_february:
  "sublist ar_february s \<Longrightarrow> sublist ar_february (replace_all MOROCCAN_MONTHS_MAP s)"
  by (rule replace_all_keeps) (simp_all add: MOROCCAN_MONTHS_MAP_def token_eval)

lemma keeps_march:
  "sublist ar_march s \<Longrightarrow> sublist ar_march (replace_all MOROCCAN_MONTHS_MAP s)"
  by (rule replace_all_keeps) (simp_all add: MOROCCAN_MONTHS_MAP_def token_eval)

lemma keeps_april:
  "sublist ar_april s \<Longrightarrow> sublist ar_april (replace_all MOROCCAN_MONTHS_MAP s)"
  by (rule replace_all_keeps) (simp_all add: MOROCCAN_MONTHS_MAP_def token_eval)

lemma keeps_october:
  "sublist ar_october s \<Longrightarrow> sublist ar_october (replace_all MOROCCAN_MONTHS_MAP s)"
  by (rule replace_all_keeps) (simp_all add: MOROCCAN_MONTHS_MAP_def token_eval)

lemma keeps_may:
  assumes "sublist ma_may s"
  shows "sublist ar_may (replace_all MOROCCAN_MONTHS_MAP s)"
proof -
  let ?pre = "[(ar_january, ar_january), (ar_february, ar_february), (ar_march, ar_march),
        (ar_april, ar_april)]"
  let ?post = "[(ar_june, ar_june), (ma_july, ar_july), (ma_august, ar_august),
        (ma_september, ar_september), (ar_october, ar_october),
        (ma_november, ar_november), (ma_december, ar_december)]"
  have "MOROCCAN_MONTHS_MAP = ?pre @ (ma_may, ar_may) # ?post"
    by (simp add: MOROCCAN_MONTHS_MAP_def)
  moreover have "sublist ar_may (replace_all (?pre @ (ma_may, ar_may) # ?post) s)"
    using assms by (intro replace_all_own) (simp_all add: token_eval)
  ultimately show ?thesis by simp
qed

lemma keeps_august:
  assumes "sublist ma_august s"
  shows "sublist ar_august (replace_all MOROCCAN_MONTHS_MAP s)"
proof -
  let ?pre = "[(ar_january, ar_january), (ar_february, ar_february), (ar_march, ar_march),
        (ar_april, ar_april), (ma_may, ar_may), (ar_june, ar_june), (ma_july, ar_july)]"
  let ?post = "[(ma_september, ar_september), (ar_october, ar_october),
        (ma_november, ar_november), (ma_december, ar_december)]"
  have "MOROCCAN_MONTHS_MAP = ?pre @ (ma_august, ar_august) # ?post"
    by (simp add: MOROCCAN_MONTHS_MAP_def)
  moreover have "sublist ar_august (replace_all (?pre @ (ma_august, ar_august) # ?post) s)"
    using assms by (intro replace_all_own) (simp_all add: token_eval)
  ultimately show ?thesis by simp
qed

lemma keeps_november:
  assumes "sublist ma_november s"
  shows "sublist ar_november (replace_all MOROCCAN_MONTHS_MAP s)"
proof -
  let ?pre = "[(ar_january, ar_january), (ar_february, ar_february), (ar_march, ar_march),
        (ar_april, ar_april), (ma_may, ar_may), (ar_june, ar_june), (ma_july, ar_july),
        (ma_august, ar_august), (ma_september, ar_september), (ar_october, ar_october)]"
  let ?post = "[(ma_december, ar_december)]"
  have "MOROCCAN_MONTHS_MAP = ?pre @ (ma_november, ar_november) # ?post"
    by (simp add: MOROCCAN_MONTHS_MAP_def)
  moreover have "sublist ar_november (replace_all (?pre @ (ma_november, ar_november) # ?post) s)"
    using assms by (intro replace_all_own) (simp_all add: token_eval)
  ultimately show ?thesis by simp
qed

lemma keeps_december:
  assumes "sublist ma_december s"
  shows "sublist ar_december (replace_all MOROCCAN_MONTHS_MAP s)"
proof -
  let ?pre = "[(ar_january, ar_january), (ar_february, ar_february), (ar_march, ar_march),
        (ar_april, ar_april), (ma_may, ar_may), (ar_june, ar_june), (ma_july, ar_july),
        (ma_august, ar_august), (ma_september, ar_september), (ar_october, ar_october),
        (ma_november, ar_november)]"
  let ?post = "[]"
  have "MOROCCAN_MONTHS_MAP = ?pre @ (ma_december, ar_december) # ?post"
    by (simp add: MOROCCAN_MONTHS_MAP_def)
  moreover have "sublist ar_december (replace_all (?pre @ (ma_december, ar_december) # ?post) s)"
    using assms by (intro replace_all_own) (simp_all add: token_eval)
  ultimately show ?thesis by simp
qed

text \<open>
  The names that begin with U+064A, the last letter of the Moroccan May: the May entry
  leaves them alone unless U+0645 U+0627 stands right before them.
\<close>

lemma keeps_january:
  assumes "\<not> straddles ma_may p ar_january"
  shows "sublist ar_january (replace_all MOROCCAN_MONTHS_MAP (p @ ar_january @ q))"
proof -
  let ?ids = "[(ar_january, ar_january), (ar_february, ar_february), (ar_march, ar_march),
        (ar_april, ar_april)]"
  let ?post = "[(ar_june, ar_june), (ma_july, ar_july), (ma_august, ar_august),
        (ma_september, ar_september), (ar_october, ar_october),
        (ma_november, ar_november), (ma_december, ar_december)]"
  have "MOROCCAN_MONTHS_MAP = ?ids @ (ma_may, ar_may) # ?post"
    by (simp add: MOROCCAN_MONTHS_MAP_def)
  moreover have "sublist ar_january (replace_all (?ids @ (ma_may, ar_may) # ?post) (p @ ar_january @ q))"
    using assms by (intro replace_all_guarded) (simp_all add: token_eval straddles_def)
  ultimately show ?thesis by simp
qed

lemma keeps_june:
  assumes "\<not> straddles ma_may p ar_june"
  shows "sublist ar_june (replace_all MOROCCAN_MONTHS_MAP (p @ ar_june @ q))"
proof -
  let ?ids = "[(ar_january, ar_january), (ar_february, ar_february), (ar_march, ar_march),
        (ar_april, ar_april)]"
  let ?post = "[(ar_june, ar_june), (ma_july, ar_july), (ma_august, ar_august),
        (ma_september, ar_september), (ar_october, ar_october),
        (ma_november, ar_november), (ma_december, ar_december)]"
  have "MOROCCAN_MONTHS_MAP = ?ids @ (ma_may, ar_may) # ?post"
    by (simp add: MOROCCAN_MONTHS_MAP_def)
  moreover have "sublist ar_june (replace_all (?ids @ (ma_may, ar_may) # ?post) (p @ ar_june @ q))"
    using assms by (intro replace_all_guarded) (simp_all add: token_eval straddles_def)
  ultimately show ?thesis by simp
qed

lemma keeps_july:
  assumes "\<not> straddles ma_may p ma_july"
  shows "sublist ar_july (replace_all MOROCCAN_MONTHS_MAP (p @ ma_july @ q))"
proof -
  let ?s = "p @ ma_july @ q"
  let ?A = "[(ar_january, ar_january), (ar_february, ar_february), (ar_march, ar_march),
        (ar_april, ar_april)] @
       (ma_may, ar_may) # [(ar_june, ar_june)]"
  let ?B = "[] @ (ma_july, ar_july) #
       [(ma_august, ar_august), (ma_september, ar_september), (ar_october, ar_october),
        (ma_november, ar_november), (ma_december, ar_december)]"
  have m: "MOROCCAN_MONTHS_MAP = ?A @ ?B"
    by (simp add: MOROCCAN_MONTHS_MAP_def)
  have "sublist ma_july (replace_all ?A ?s)"
    using assms by (intro replace_all_guarded) (simp_all add: token_eval straddles_def)
  then have "sublist ar_july (replace_all ?B (replace_all ?A ?s))"
    by (intro replace_all_own) (simp_all add: token_eval)
  then show ?thesis unfolding m replace_all_append .
qed

text \<open>
  The Moroccan September begins with the last two letters of the Moroccan August: the
  August entry leaves it alone unless U+063A stands right before it. The May and July
  entries come before and rewrite the text around it; what they put before it does not
  end with U+063A.
\<close>

lemma keeps_september:
  assumes "\<not> straddles ma_august p ma_september"
  shows "sublist ar_september (replace_all MOROCCAN_MONTHS_MAP (p @ ma_september @ q))"
proof -
  let ?t = "ma_september"
  let ?s = "p @ ?t @ q"
  let ?ids = "[(ar_january, ar_january), (ar_february, ar_february), (ar_march, ar_march),
        (ar_april, ar_april)]"
  let ?B = "[] @ (ma_september, ar_september) #
       [(ar_october, ar_october), (ma_november, ar_november),
        (ma_december, ar_december)]"
  let ?f = "\<lambda>x. replace (replace (replace x ma_may ar_may) ar_june ar_june) ma_july ar_july"
  have m: "MOROCCAN_MONTHS_MAP =
      ?ids @ [(ma_may, ar_may), (ar_june, ar_june), (ma_july, ar_july),
        (ma_august, ar_august)] @ ?B"
    by (simp add: MOROCCAN_MONTHS_MAP_def)
  have ids: "replace_all ?ids ?s = ?s"
    by (rule replace_all_same) simp
  have same: "replace x ar_june ar_june = x" for x
    by (simp add: replace_def replace_ne_same)
  have s1: "replace ?s ma_may ar_may = replace p ma_may ar_may @ ?t @ replace q ma_may ar_may"
    by (rule replace_around) (simp_all add: sublist_code)
  have s2: "?f ?s = ?f p @ ?t @ ?f q"
    unfolding s1 same by (rule replace_around) (simp_all add: sublist_code)
  from assms have g0: "\<not> suffix [1594] p"
    by (simp add: straddles_def)
  have g1: "\<not> suffix [1594] (replace p ma_may ar_may)"
    by (rule replace_last) (use g0 in simp_all)
  have g: "\<not> suffix [1594] (?f p)"
    unfolding same by (rule replace_last) (use g1 in simp_all)
  have s3: "replace (?f ?s) ma_august ar_august =
      replace (?f p) ma_august ar_august @ ?t @ replace (?f q) ma_august ar_august"
    unfolding s2 using g by (intro replace_around) (simp_all add: sublist_code)
  have "sublist ?t (replace (?f ?s) ma_august ar_august)"
    unfolding s3 by (rule sublist_appendI)
  then have "sublist ar_september (replace_all ?B (replace (?f ?s) ma_august ar_august))"
    by (intro replace_all_own) (simp_all add: token_eval)
  then show ?thesis unfolding m replace_all_append ids by simp
qed

section \<open>Normalising the month names\<close>

lemma replace_all_unchanged:
  "list_all (\<lambda>(old, new). old \<noteq> [] \<and> (old = new \<or> \<not> sublist old s)) items \<Longrightarrow>
   replace_all items s = s"
proof (induction items)
  case Nil
  then show ?case by simp
next
  case (Cons item items)
  obtain old new where item: "item = (old, new)" by (cases item)
  with Cons.prems have "replace s old new = s"
    by (auto simp: replace_def replace_ne_same replace_ne_absent)
  with Cons item show ?case by simp
qed

lemma normalize_keeps_canonical:
  assumes kv: "(k, v) \<in> set MOROCCAN_MONTHS_MAP"
      and st: "list_all (\<lambda>(k', v'). \<not> straddles k' p k) rewriting"
  shows "sublist v (replace_all MOROCCAN_MONTHS_MAP (p @ k @ q))"
proof -
  from kv have
   "k = ar_january \<and> v = ar_january \<or>
    k = ar_february \<and> v = ar_february \<or>
    k = ar_march \<and> v = ar_march \<or>
    k = ar_april \<and> v = ar_april \<or>
    k = ma_may \<and> v = ar_may \<or>
    k = ar_june \<and> v = ar_june \<or>
    k = ma_july \<and> v = ar_july \<or>
    k = ma_august \<and> v = ar_august \<or>
    k = ma_september \<and> v = ar_september \<or>
    k = ar_october \<and> v = ar_october \<or>
    k = ma_november \<and> v = ar_november \<or>
    k = ma_december \<and> v = ar_december"
    by (simp add: MOROCCAN_MONTHS_MAP_def)
  then show ?thesis
  proof (elim disjE)
    assume e: "k = ar_january \<and> v = ar_january"
    with st have "\<not> straddles ma_may p ar_january"
      by (simp add: rewriting_def MOROCCAN_MONTHS_MAP_def)
    then show ?thesis unfolding conjunct1 [OF e] conjunct2 [OF e] by (rule keeps_january)
  next
    assume e: "k = ar_february \<and> v = ar_february"
    have "sublist ar_february (p @ ar_february @ q)" by (rule sublist_appendI)
    then show ?thesis unfolding conjunct1 [OF e] conjunct2 [OF e] by (rule keeps_february)
  next
    assume e: "k = ar_march \<and> v = ar_march"
    have "sublist ar_march (p @ ar_march @ q)" by (rule sublist_appendI)
    then show ?thesis unfolding conjunct1 [OF e] conjunct2 [OF e] by (rule keeps_march)
  next
    assume e: "k = ar_april \<and> v = ar_april"
    have "sublist ar_april (p @ ar_april @ q)" by (rule sublist_appendI)
    then show ?thesis unfolding conjunct1 [OF e] conjunct2 [OF e] by (rule keeps_april)
  next
    assume e: "k = ma_may \<and> v = ar_may"
    have "sublist ma_may (p @ ma_may @ q)" by (rule sublist_appendI)
    then show ?thesis unfolding conjunct1 [OF e] conjunct2 [OF e] by (rule keeps_may)
  next
    assume e: "k = ar_june \<and> v = ar_june"
    with st have "\<not> straddles ma_may p ar_june"
      by (simp add: rewriting_def MOROCCAN_MONTHS_MAP_def)
    then show ?thesis unfolding conjunct1 [OF e] conjunct2 [OF e] by (rule keeps_june)
  next
    assume e: "k = ma_july \<and> v = ar_july"
    with st have "\<not> straddles ma_may p ma_july"
      by (simp add: rewriting_def MOROCCAN_MONTHS_MAP_def)
    then show ?thesis unfolding conjunct1 [OF e] conjunct2 [OF e] by (rule keeps_july)
  next
    assume e: "k = ma_august \<and> v = ar_august"
    have "sublist ma_august (p @ ma_august @ q)" by (rule sublist_appendI)
    then show ?thesis unfolding conjunct1 [OF e] conjunct2 [OF e] by (rule keeps_august)
  next
    assume e: "k = ma_september \<and> v = ar_september"
    with st have "\<not> straddles ma_august p ma_september"
      by (simp add: rewriting_def MOROCCAN_MONTHS_MAP_def)
    then show ?thesis unfolding conjunct1 [OF e] conjunct2 [OF e] by (rule keeps_september)
  next
    assume e: "k = ar_october \<and> v = ar_october"
    have "sublist ar_october (p @ ar_october @ q)" by (rule sublist_appendI)
    then show ?thesis unfolding conjunct1 [OF e] conjunct2 [OF e] by (rule keeps_october)
  next
    assume e: "k = ma_november \<and> v = ar_november"
    have "sublist ma_november (p @ ma_november @ q)" by (rule sublist_appendI)
    then show ?thesis unfolding conjunct1 [OF e] conjunct2 [OF e] by (rule keeps_november)
  next
    assume e: "k = ma_december \<and> v = ar_december"
    have "sublist ma_december (p @ ma_december @ q)" by (rule sublist_appendI)
    then show ?thesis unfolding conjunct1 [OF e] conjunct2 [OF e] by (rule keeps_december)
  qed
qed

lemma normalize_without_variant:
  assumes "list_all (\<lambda>(k', v'). \<not> sublist k' s) rewriting"
  shows "replace_all MOROCCAN_MONTHS_MAP s = s"
  by (rule replace_all_unchanged)
     (use assms in \<open>simp add: rewriting_def MOROCCAN_MONTHS_MAP_def\<close>)

text \<open>
  C5, as the code has it. For every entry (variant, canonical) of the table, normalising
  a string that holds the variant gives a string that holds the canonical name, provided
  no occurrence of a variant that the table rewrites (one whose canonical name differs
  from it) begins before that occurrence of the variant and ends inside it. A string that
  holds none of the rewritten variants is returned unchanged, the empty string too, and
  an absent input stays absent.
\<close>

theorem normalize_months:
  "((k, v) \<in> set MOROCCAN_MONTHS_MAP \<and>
    list_all (\<lambda>(k', v'). \<not> straddles k' p k) rewriting \<longrightarrow>
      (\<exists>s'. normalize_moroccan_months (Some (p @ k @ q)) = Some s' \<and> sublist v s')) \<and>
   (list_all (\<lambda>(k', v'). \<not> sublist k' s) rewriting \<longrightarrow>
      normalize_moroccan_months (Some s) = Some s) \<and>
   normalize_moroccan_months (Some []) = Some [] \<and>
   normalize_moroccan_months None = None"
proof (intro conjI impI)
  assume h: "(k, v) \<in> set MOROCCAN_MONTHS_MAP \<and>
    list_all (\<lambda>(k', v'). \<not> straddles k' p k) rewriting"
  then have "k \<noteq> []" by (auto simp: MOROCCAN_MONTHS_MAP_def)
  then have "normalize_moroccan_months (Some (p @ k @ q)) =
      Some (replace_all MOROCCAN_MONTHS_MAP (p @ k @ q))"
    by simp
  moreover from h have "sublist v (replace_all MOROCCAN_MONTHS_MAP (p @ k @ q))"
    by (simp add: normalize_keeps_canonical)
  ultimately show "\<exists>s'. normalize_moroccan_months (Some (p @ k @ q)) = Some s' \<and> sublist v s'"
    by blast
next
  assume "list_all (\<lambda>(k', v'). \<not> sublist k' s) rewriting"
  then show "normalize_moroccan_months (Some s) = Some s"
    by (simp add: normalize_without_variant)
qed simp_all

theorem normalize_months_witness:
  "(ma_july, ar_july) \<in> set MOROCCAN_MONTHS_MAP \<and>
   list_all (\<lambda>(k', v'). \<not> straddles k' [50, 32] ma_july) rewriting \<and>
   (\<exists>s'. normalize_moroccan_months (Some ([50, 32] @ ma_july @ [32])) = Some s' \<and>
      sublist ar_july s') \<and>
   list_all (\<lambda>(k', v'). \<not> sublist k' ar_january) rewriting \<and>
   normalize_moroccan_months (Some ar_january) = Some ar_january"
proof -
  have a: "(ma_july, ar_july) \<in> set MOROCCAN_MONTHS_MAP"
    by (simp add: MOROCCAN_MONTHS_MAP_def)
  have b: "list_all (\<lambda>(k', v'). \<not> straddles k' [50, 32] ma_july) rewriting"
    by (simp add: rewriting_def MOROCCAN_MONTHS_MAP_def straddles_def suffix_to_prefix)
  have c: "list_all (\<lambda>(k', v'). \<not> sublist k' ar_january) rewriting"
    by (simp add: rewriting_def MOROCCAN_MONTHS_MAP_def sublist_code)
  from a b c
    normalize_months [of "ma_july" "ar_july" "[50, 32]" "[32]" "ar_january"]
  show ?thesis by blast
qed

text \<open>
  C5 as the specification words it fails: the July variant (U+064A U+0648 U+0644 U+064A
  U+0648 U+0632) is in the table and in the string below, where the May variant ends on
  its first letter; the May entry comes first and adds a letter inside it, so that the
  result holds neither the July variant nor the canonical July name.
\<close>

theorem normalize_months_counterexample:
  "(ma_july, ar_july) \<in> set MOROCCAN_MONTHS_MAP \<and>
   sublist ma_july ([1605, 1575] @ ma_july) \<and>
   normalize_moroccan_months (Some ([1605, 1575] @ ma_july)) =
     Some (ar_may @ [1608, 1604, 1610, 1608, 1586]) \<and>
   \<not> sublist ar_july (ar_may @ [1608, 1604, 1610, 1608, 1586])"
  by (simp add: MOROCCAN_MONTHS_MAP_def replace_def sublist_code)

text \<open>
  C10: normalising is not idempotent. The May variant (U+0645 U+0627 U+064A) becomes the
  canonical name, which is the variant followed by U+0648; the variant is a prefix of the
  canonical name, and normalising the canonical name adds the letter again.
\<close>

theorem normalize_not_idempotent:
  "(\<exists>s. normalize_moroccan_months (normalize_moroccan_months s) \<noteq> normalize_moroccan_months s) \<and>
   normalize_moroccan_months (Some ma_may) = Some ar_may \<and>
   prefix ma_may ar_may \<and>
   normalize_moroccan_months (Some ar_may) = Some (ar_may @ [1608])"
proof -
  have a: "normalize_moroccan_months (Some ma_may) = Some ar_may"
    by (simp add: MOROCCAN_MONTHS_MAP_def replace_def)
  have b: "normalize_moroccan_months (Some ar_may) = Some (ar_may @ [1608])"
    by (simp add: MOROCCAN_MONTHS_MAP_def replace_def)
  from a b have "normalize_moroccan_months (normalize_moroccan_months (Some ma_may)) \<noteq>
      normalize_moroccan_months (Some ma_may)"
    by simp
  then have "\<exists>s. normalize_moroccan_months (normalize_moroccan_months s) \<noteq> normalize_moroccan_months s" ..
  with a b show ?thesis by simp
qed

section \<open>The post identifier of a URL\<close>

lemma ascii_html: "ascii ''.html'' = [46, 104, 116, 109, 108]"
  by (simp add: ascii_def)

lemma not_decimal_dot: "\<not> is_decimal nd 46" and not_decimal_hyphen: "\<not> is_decimal nd 45"
  by (simp_all add: is_decimal_def)

lemma html_at_end_iff:
  "html_at_end s \<longleftrightarrow> s = ascii ''.html'' \<or> s = ascii ''.html'' @ [10]"
  by (auto simp: html_at_end_def at_end_def ascii_html prefix_def)

lemma digits_then_html_Some:
  "digits_then_html n s = Some g \<Longrightarrow>
   \<exists>k. 0 < k \<and> k \<le> n \<and> g = take k s \<and> html_at_end (drop k s)"
proof (induction n)
  case 0
  then show ?case by simp
next
  case (Suc n)
  show ?case
  proof (cases "html_at_end (drop (Suc n) s)")
    case True
    with Suc.prems have "g = take (Suc n) s" by simp
    with True show ?thesis by blast
  next
    case False
    with Suc.prems have "digits_then_html n s = Some g" by simp
    from Suc.IH [OF this] show ?thesis by (auto intro: le_SucI)
  qed
qed

lemma match_here_Some:
  assumes "match_here nd s = Some g"
  shows "\<exists>rest. s = 45 # g @ rest \<and> g \<noteq> [] \<and> list_all (is_decimal nd) g \<and> html_at_end rest"
proof -
  from assms obtain r where s: "s = 45 # r"
    and d: "digits_then_html (length (takeWhile (is_decimal nd) r)) r = Some g"
    by (auto simp: match_here_def split: list.splits if_splits)
  from digits_then_html_Some [OF d] obtain k where k: "0 < k"
    "k \<le> length (takeWhile (is_decimal nd) r)" "g = take k r" "html_at_end (drop k r)"
    by blast
  from k(2) have "take k r = take k (takeWhile (is_decimal nd) r)"
    by (metis append_eq_conv_conj takeWhile_dropWhile_id take_append min.absorb2 take_take
        length_take min.cobounded2 diff_is_0_eq take_0 append_Nil2)
  then have "set g \<subseteq> set (takeWhile (is_decimal nd) r)"
    using k(3) by (metis set_take_subset)
  then have "list_all (is_decimal nd) g"
    by (auto simp: list_all_iff dest: set_takeWhileD)
  moreover from k have "g \<noteq> []"
    using length_takeWhile_le [of "is_decimal nd" r] by auto
  moreover from k(3) have "r = g @ drop k r" by simp
  ultimately show ?thesis using s k(4) by blast
qed

lemma match_here_found:
  assumes "ds \<noteq> []" "list_all (is_decimal nd) ds" "html_at_end rest"
  shows "match_here nd (45 # ds @ rest) = Some ds"
proof -
  from assms(3) obtain t where "rest = 46 # t"
    by (auto simp: html_at_end_iff ascii_html)
  with assms(2) have "takeWhile (is_decimal nd) (ds @ rest) = ds"
    by (simp add: takeWhile_append2 list_all_iff not_decimal_dot)
  moreover from assms(1) obtain n where "length ds = Suc n"
    by (cases ds) auto
  ultimately show ?thesis using assms(3)
    by (simp add: match_here_def)
qed

lemma re_search_Some:
  "re_search nd s = Some g \<Longrightarrow>
   \<exists>pre rest. s = pre @ 45 # g @ rest \<and> g \<noteq> [] \<and> list_all (is_decimal nd) g \<and> html_at_end rest"
proof (induction s)
  case Nil
  then show ?case by (simp add: match_here_def)
next
  case (Cons c cs)
  show ?case
  proof (cases "match_here nd (c # cs)")
    case None
    with Cons.prems have "re_search nd cs = Some g" by simp
    from Cons.IH [OF this] obtain pre rest where
      "cs = pre @ 45 # g @ rest \<and> g \<noteq> [] \<and> list_all (is_decimal nd) g \<and> html_at_end rest"
      by blast
    then have "c # cs = (c # pre) @ 45 # g @ rest \<and> g \<noteq> [] \<and> list_all (is_decimal nd) g \<and>
        html_at_end rest"
      by simp
    then show ?thesis by blast
  next
    case (Some g')
    with Cons.prems have "g' = g" by simp
    with match_here_Some [OF Some] show ?thesis by (metis append_Nil)
  qed
qed

lemma html_at_end_same:
  assumes "html_at_end r" "html_at_end r'" "x @ r = y @ r'"
  shows "r = r'"
proof -
  from assms(1,2) consider "r = r'" | "r = ascii ''.html''" "r' = ascii ''.html'' @ [10]"
    | "r = ascii ''.html'' @ [10]" "r' = ascii ''.html''"
    by (auto simp: html_at_end_iff)
  then show ?thesis
  proof cases
    case 1
    then show ?thesis .
  next
    case 2
    with assms(3) have "last (x @ r) = last (y @ r')" by simp
    with 2 show ?thesis by (simp add: ascii_html)
  next
    case 3
    with assms(3) have "last (x @ r) = last (y @ r')" by simp
    with 3 show ?thesis by (simp add: ascii_html)
  qed
qed

lemma re_search_found:
  assumes "ds \<noteq> []" "list_all (is_decimal nd) ds" "html_at_end rest"
  shows "re_search nd (pre @ 45 # ds @ rest) = Some ds"
proof (induction pre)
  case Nil
  with match_here_found [OF assms] show ?case by simp
next
  case (Cons c pre)
  have "match_here nd (c # pre @ 45 # ds @ rest) = None"
  proof (rule ccontr)
    assume "match_here nd (c # pre @ 45 # ds @ rest) \<noteq> None"
    then obtain g where "match_here nd (c # pre @ 45 # ds @ rest) = Some g" by blast
    from match_here_Some [OF this] obtain rest' where
      e: "c # pre @ 45 # ds @ rest = 45 # g @ rest'" and g: "list_all (is_decimal nd) g"
      and h: "html_at_end rest'"
      by blast
    from e have "(c # pre @ 45 # ds) @ rest = (45 # g) @ rest'" by simp
    from html_at_end_same [OF assms(3) h this] e have "pre @ 45 # ds = g" by simp
    then have "45 \<in> set g" by auto
    with g show False by (auto simp: list_all_iff not_decimal_hyphen)
  qed
  with Cons show ?case by simp
qed

lemmas url_eval = extract_post_id_from_url_def match_here_def is_decimal_def html_at_end_def
  at_end_def ascii_def

text \<open>
  What reaches the function: \<open>parse_listing_page\<close> passes the trimmed \<open>href\<close> of a card,
  which does not end with white space, a line feed in particular.
\<close>

lemma strip_last: "strip s \<noteq> [] \<Longrightarrow> \<not> isspace (last (strip s))"
proof -
  assume ne: "strip s \<noteq> []"
  let ?t = "dropWhile isspace (rev (dropWhile isspace s))"
  from ne have t: "?t \<noteq> []" by (simp add: strip_def)
  then have "\<not> isspace (hd ?t)" by (rule hd_dropWhile)
  moreover from t have "last (strip s) = hd ?t" by (simp add: strip_def last_rev)
  ultimately show ?thesis by simp
qed

lemma strip_no_line_feed: "\<not> suffix [10] (strip s)"
proof
  assume "suffix [10] (strip s)"
  then obtain p where p: "strip s = p @ [10]" by (auto simp: suffix_def)
  then have "strip s \<noteq> []" "last (strip s) = 10" by simp_all
  with strip_last [of s] show False by (simp add: isspace_def)
qed

lemma parse_cards_url:
  "sm \<in> set (parse_cards nd cards) \<Longrightarrow> \<not> suffix [10] (s_article_url sm)"
  by (induction cards) (auto simp: Let_def strip_no_line_feed split: option.splits if_splits)

lemma parse_listing_page_url:
  "sm \<in> set (parse_listing_page W n) \<Longrightarrow> \<not> suffix [10] (s_article_url sm)"
  by (auto simp: parse_listing_page_def parse_cards_url split: response.splits if_splits)

lemma parse_cards_postid:
  "sm \<in> set (parse_cards nd cards) \<Longrightarrow>
   s_postid sm = extract_post_id_from_url nd (s_article_url sm)"
  by (induction cards) (auto simp: Let_def split: option.splits if_splits)

lemma parse_listing_page_postid:
  "sm \<in> set (parse_listing_page W n) \<Longrightarrow>
   s_postid sm = extract_post_id_from_url (w_decimal W) (s_article_url sm)"
  by (auto simp: parse_listing_page_def parse_cards_postid split: response.splits if_splits)

lemmas site_eval = site_200_def site_404_def example_listing_def example_card_def
  example_page_def parse_listing_page_def parse_article_content_def get_attr_def strip_def
  isspace_def ascii_def url_eval arabic_indic_def

lemma example_summaries:
  "parse_listing_page site_404 1 =
     [\<lparr>s_postid = ascii ''1'', s_article_url = ascii ''/a-1.html'',
       s_category = Some (ascii ''news''), s_title = ascii ''title'',
       s_date_text_ar = Some (ascii ''listed'')\<rparr>,
      \<lparr>s_postid = [], s_article_url = ascii ''/b.html'',
       s_category = Some (ascii ''news''), s_title = ascii ''title'',
       s_date_text_ar = Some (ascii ''listed'')\<rparr>]"
  "parse_listing_page site_200 1 = parse_listing_page site_404 1"
  by (simp_all add: site_eval)

text \<open>
  C4: \<open>extract_post_id_from_url\<close> returns the digits that stand between a hyphen and the
  \<open>.html\<close> that ends the URL, and the empty string for a URL that does not end with a
  hyphen, digits and \<open>.html\<close>. A URL holds no line feed; the second part is stated for
  every string that does not end with one. The last part says that this covers every
  string the program passes to the function: the URL of a summary does not end with a
  line feed, and the \<open>postid\<close> of the summary is what the function returns for it.
\<close>

theorem extract_post_id:
  "(ds \<noteq> [] \<and> list_all (is_decimal nd) ds \<longrightarrow>
      extract_post_id_from_url nd (pre @ ascii ''-'' @ ds @ ascii ''.html'') = ds) \<and>
   (\<not> suffix [10] url \<and>
    \<not> (\<exists>pre ds. url = pre @ ascii ''-'' @ ds @ ascii ''.html'' \<and> ds \<noteq> [] \<and>
          list_all (is_decimal nd) ds) \<longrightarrow>
      extract_post_id_from_url nd url = []) \<and>
   (sm \<in> set (parse_listing_page W n) \<longrightarrow>
      \<not> suffix [10] (s_article_url sm) \<and>
      s_postid sm = extract_post_id_from_url (w_decimal W) (s_article_url sm))"
proof (intro conjI impI)
  assume h: "ds \<noteq> [] \<and> list_all (is_decimal nd) ds"
  have "html_at_end (ascii ''.html'')" by (simp add: html_at_end_iff)
  with h have "re_search nd (pre @ 45 # ds @ ascii ''.html'') = Some ds"
    by (simp add: re_search_found)
  moreover have "ascii ''-'' = [45]" by (simp add: ascii_def)
  ultimately show "extract_post_id_from_url nd (pre @ ascii ''-'' @ ds @ ascii ''.html'') = ds"
    by (simp add: extract_post_id_from_url_def)
next
  let ?g = "extract_post_id_from_url nd url"
  assume h: "\<not> suffix [10] url \<and>
    \<not> (\<exists>pre ds. url = pre @ ascii ''-'' @ ds @ ascii ''.html'' \<and> ds \<noteq> [] \<and>
          list_all (is_decimal nd) ds)"
  show "?g = []"
  proof (rule ccontr)
    assume ne: "?g \<noteq> []"
    then have "re_search nd url = Some ?g"
      by (auto simp: extract_post_id_from_url_def split: option.splits)
    from re_search_Some [OF this] obtain pre rest where
      u: "url = pre @ 45 # ?g @ rest" and g: "list_all (is_decimal nd) ?g"
      and r: "html_at_end rest"
      by blast
    from r consider "rest = ascii ''.html''" | "rest = ascii ''.html'' @ [10]"
      by (auto simp: html_at_end_iff)
    then show False
    proof cases
      case 1
      have "ascii ''-'' = [45]" by (simp add: ascii_def)
      with 1 u have "url = pre @ ascii ''-'' @ ?g @ ascii ''.html''" by simp
      with h ne g show False by blast
    next
      case 2
      with u have "url = (pre @ 45 # ?g @ ascii ''.html'') @ [10]" by simp
      then have "suffix [10] url" by (metis suffixI)
      with h show False by blast
    qed
  qed
next
  assume "sm \<in> set (parse_listing_page W n)"
  then show "\<not> suffix [10] (s_article_url sm)" by (rule parse_listing_page_url)
next
  assume "sm \<in> set (parse_listing_page W n)"
  then show "s_postid sm = extract_post_id_from_url (w_decimal W) (s_article_url sm)"
    by (rule parse_listing_page_postid)
qed

theorem extract_post_id_witness:
  "ascii ''66055'' \<noteq> [] \<and> list_all (is_decimal arabic_indic) (ascii ''66055'') \<and>
   extract_post_id_from_url arabic_indic
     (ascii ''https://www.hespress.com/foo-bar'' @ ascii ''-'' @ ascii ''66055'' @ ascii ''.html'') =
     ascii ''66055'' \<and>
   \<not> suffix [10] (ascii ''https://www.hespress.com/foo-bar.html'') \<and>
   \<not> (\<exists>pre ds. ascii ''https://www.hespress.com/foo-bar.html'' =
          pre @ ascii ''-'' @ ds @ ascii ''.html'' \<and> ds \<noteq> [] \<and>
          list_all (is_decimal arabic_indic) ds) \<and>
   extract_post_id_from_url arabic_indic (ascii ''https://www.hespress.com/foo-bar.html'') = [] \<and>
   hd (parse_listing_page site_200 1) \<in> set (parse_listing_page site_200 1) \<and>
   s_article_url (hd (parse_listing_page site_200 1)) = ascii ''/a-1.html'' \<and>
   s_postid (hd (parse_listing_page site_200 1)) =
     extract_post_id_from_url (w_decimal site_200) (s_article_url (hd (parse_listing_page site_200 1)))"
proof -
  let ?u = "ascii ''https://www.hespress.com/foo-bar.html''"
  let ?sm = "hd (parse_listing_page site_200 1)"
  note t = extract_post_id [where ds = "ascii ''66055''" and nd = arabic_indic
      and pre = "ascii ''https://www.hespress.com/foo-bar''" and url = ?u
      and sm = ?sm and W = site_200 and n = 1]
  have a: "ascii ''66055'' \<noteq> [] \<and> list_all (is_decimal arabic_indic) (ascii ''66055'')"
    by (simp add: ascii_def is_decimal_def)
  have b: "\<not> suffix [10] ?u" by (simp add: ascii_def suffix_to_prefix)
  have e: "extract_post_id_from_url arabic_indic ?u = []" by (simp add: url_eval)
  have c: "\<not> (\<exists>pre ds. ?u = pre @ ascii ''-'' @ ds @ ascii ''.html'' \<and> ds \<noteq> [] \<and>
          list_all (is_decimal arabic_indic) ds)"
  proof
    assume "\<exists>pre ds. ?u = pre @ ascii ''-'' @ ds @ ascii ''.html'' \<and> ds \<noteq> [] \<and>
          list_all (is_decimal arabic_indic) ds"
    then obtain pre ds where d: "?u = pre @ ascii ''-'' @ ds @ ascii ''.html''" "ds \<noteq> []"
      "list_all (is_decimal arabic_indic) ds"
      by blast
    have "html_at_end (ascii ''.html'')" by (simp add: html_at_end_iff)
    with d(2,3) have "re_search arabic_indic (pre @ 45 # ds @ ascii ''.html'') = Some ds"
      by (simp add: re_search_found)
    moreover have "ascii ''-'' = [45]" by (simp add: ascii_def)
    ultimately have "extract_post_id_from_url arabic_indic ?u = ds"
      unfolding d(1) by (simp add: extract_post_id_from_url_def)
    with e d(2) show False by simp
  qed
  have m: "?sm \<in> set (parse_listing_page site_200 1)"
    "s_article_url ?sm = ascii ''/a-1.html''"
    by (simp_all add: example_summaries)
  from t a have x: "extract_post_id_from_url arabic_indic
      (ascii ''https://www.hespress.com/foo-bar'' @ ascii ''-'' @ ascii ''66055'' @ ascii ''.html'') =
      ascii ''66055''"
    by blast
  from t b c have y: "extract_post_id_from_url arabic_indic ?u = []" by blast
  from t m(1) have z: "s_postid ?sm =
      extract_post_id_from_url (w_decimal site_200) (s_article_url ?sm)"
    by blast
  from a b c m x y z show ?thesis by blast
qed

section \<open>The cards of a listing page\<close>

text \<open>
  C8: the loop yields one summary for each card whose link node is there and whose
  \<open>href\<close> is not empty once trimmed, in the order of the document, and nothing for the
  other cards.
\<close>

theorem parse_cards_extract:
  "parse_cards nd cards =
     map (\<lambda>c. \<lparr>s_postid = extract_post_id_from_url nd (card_url c),
                s_article_url = card_url c,
                s_category = c_cat c,
                s_title = strip (get_attr (a_title (the (c_link c)))),
                s_date_text_ar = c_time c\<rparr>)
       (filter (\<lambda>c. c_link c \<noteq> None \<and> card_url c \<noteq> []) cards) \<and>
   map s_article_url (parse_cards nd cards) = filter (\<lambda>u. u \<noteq> []) (map card_url cards)"
  by (induction cards) (auto simp: card_url_def Let_def split: option.splits)

text \<open>Three cards with a link and, second in the document, one without: three summaries.\<close>

theorem parse_cards_extract_witness:
  "map s_article_url
     (parse_cards arabic_indic
        [\<lparr>c_cat = None, c_link = Some \<lparr>a_href = Some (ascii '' /a-1.html ''), a_title = None\<rparr>,
          c_time = None\<rparr>,
         \<lparr>c_cat = Some (ascii ''x''), c_link = None, c_time = None\<rparr>,
         \<lparr>c_cat = None, c_link = Some \<lparr>a_href = Some (ascii ''/b-2.html''), a_title = None\<rparr>,
          c_time = None\<rparr>,
         \<lparr>c_cat = None, c_link = Some \<lparr>a_href = Some (ascii ''/c.html''), a_title = None\<rparr>,
          c_time = None\<rparr>]) =
   [ascii ''/a-1.html'', ascii ''/b-2.html'', ascii ''/c.html'']"
  using parse_cards_extract [of arabic_indic
        "[\<lparr>c_cat = None, c_link = Some \<lparr>a_href = Some (ascii '' /a-1.html ''), a_title = None\<rparr>,
          c_time = None\<rparr>,
         \<lparr>c_cat = Some (ascii ''x''), c_link = None, c_time = None\<rparr>,
         \<lparr>c_cat = None, c_link = Some \<lparr>a_href = Some (ascii ''/b-2.html''), a_title = None\<rparr>,
          c_time = None\<rparr>,
         \<lparr>c_cat = None, c_link = Some \<lparr>a_href = Some (ascii ''/c.html''), a_title = None\<rparr>,
          c_time = None\<rparr>]"]
  by (simp add: card_url_def get_attr_def strip_def isspace_def ascii_def)

section \<open>The pages of a run\<close>

lemma py_range_up: "py_range i stop 1 = [i..stop - 1]"
proof (induction i stop "1::int" rule: py_range.induct)
  case (1 i stop)
  show ?case
  proof (cases "i < stop")
    case True
    with 1 have "py_range i stop 1 = i # [i + 1..stop - 1]"
      by (simp add: py_range.simps [of i stop 1])
    with True show ?thesis by (simp add: upto_rec1)
  next
    case False
    then show ?thesis by (simp add: py_range.simps [of i stop 1])
  qed
qed

lemma py_range_down: "py_range i stop (- 1) = rev [stop + 1..i]"
proof (induction i stop "- 1::int" rule: py_range.induct)
  case (1 i stop)
  show ?case
  proof (cases "stop < i")
    case True
    with 1 have "py_range i stop (- 1) = i # rev [stop + 1..i - 1]"
      by (simp add: py_range.simps [of i stop "- 1"])
    with True show ?thesis by (simp add: upto_rec2)
  next
    case False
    then show ?thesis by (simp add: py_range.simps [of i stop "- 1"])
  qed
qed

lemmas store_defs = article_exists_def insert_article_def get_connection_def create_table_def

lemma create_table_fields [simp]:
  "rows (create_table W st) = rows st"
  "listing_requests (create_table W st) = listing_requests st"
  "article_requests (create_table W st) = article_requests st"
  "total_articles_fetched (create_table W st) = total_articles_fetched st"
  by (simp_all add: store_defs)

lemma scrape_summary_counters:
  "listing_requests (scrape_summary W sm st) = listing_requests st"
  "total_articles_fetched (scrape_summary W sm st) = total_articles_fetched st"
  by (simp_all add: scrape_summary_def store_defs Let_def split: prod.splits)

lemma scrape_summaries_listing_requests:
  "listing_requests (scrape_summaries W sms st) = listing_requests st"
  by (induction sms arbitrary: st) (simp_all add: scrape_summary_counters)

lemma scrape_summaries_total:
  "total_articles_fetched (scrape_summaries W sms st) = total_articles_fetched st"
  by (induction sms arbitrary: st) (simp_all add: scrape_summary_counters)

lemma scrape_pages_listing_requests:
  "listing_requests (scrape_pages W ps st) = listing_requests st @ ps"
  by (induction ps arbitrary: st) (simp_all add: Let_def scrape_summaries_listing_requests)

lemma scrape_pages_total:
  "total_articles_fetched (scrape_pages W ps st) =
     total_articles_fetched st + (\<Sum>n\<leftarrow>ps. length (parse_listing_page W n))"
  by (induction ps arbitrary: st) (simp_all add: Let_def scrape_summaries_total)

lemma scrape_hespress_pages:
  "final (scrape_hespress W db s e) =
     scrape_pages W (if s > e then rev [e..s] else [s..e])
       (create_table W
          \<lparr>rows = db, listing_requests = [], article_requests = [],
           total_articles_fetched = 0, store_calls = 0\<rparr>)"
  by (simp add: scrape_hespress_def Let_def py_range_up py_range_down)

text \<open>
  C6: a run asks for the listing pages of the closed interval between \<open>start_page\<close> and
  \<open>end_page\<close>, both ends included, each once: downwards when \<open>start_page > end_page\<close>,
  upwards otherwise, and the one page when the two are equal.
\<close>

theorem pages_visited:
  "listing_requests (final (scrape_hespress W db start_page end_page)) =
     (if start_page > end_page then rev [end_page..start_page] else [start_page..end_page]) \<and>
   listing_requests (final (scrape_hespress W db start_page start_page)) = [start_page]"
  unfolding scrape_hespress_pages scrape_pages_listing_requests by simp

theorem pages_visited_witness:
  "listing_requests (final (scrape_hespress site_200 [] 5 1)) = [5, 4, 3, 2, 1] \<and>
   listing_requests (final (scrape_hespress site_200 [] 2 4)) = [2, 3, 4] \<and>
   listing_requests (final (scrape_hespress site_200 [] 3 3)) = [3]"
  using pages_visited [of site_200 "[]" 5 1] pages_visited [of site_200 "[]" 2 4]
    pages_visited [of site_200 "[]" 3 3]
  by (simp add: upto_rec1)

text \<open>
  C2, as the code has it. The number a run prints (and logs) at its end is the number of
  summaries of all the listing pages it asked for, whatever the table held before, so the
  summaries that the check against the table skips are counted; the call itself returns
  \<open>None\<close>.
\<close>

theorem total_reported:
  "printed (scrape_hespress W db start_page end_page) =
     (\<Sum>n\<leftarrow>listing_requests (final (scrape_hespress W db start_page end_page)).
        length (parse_listing_page W n)) \<and>
   printed (scrape_hespress W db start_page end_page) =
     (\<Sum>n\<leftarrow>(if start_page > end_page then rev [end_page..start_page]
              else [start_page..end_page]).
        length (parse_listing_page W n)) \<and>
   returned (scrape_hespress W db start_page end_page) = None"
proof -
  have "printed (scrape_hespress W db start_page end_page) =
      total_articles_fetched (final (scrape_hespress W db start_page end_page))"
    by (simp add: scrape_hespress_def Let_def)
  moreover have "returned (scrape_hespress W db start_page end_page) = None"
    by (simp add: scrape_hespress_def Let_def)
  ultimately show ?thesis
    unfolding scrape_hespress_pages scrape_pages_total scrape_pages_listing_requests by simp
qed

theorem total_reported_witness:
  "printed (scrape_hespress site_404 [] 1 1) = 2 \<and>
   returned (scrape_hespress site_404 [] 1 1) = None"
  using total_reported [of site_404 "[]" 1 1]
  by (simp add: example_summaries)

text \<open>
  C2 as the specification words it fails: on the first example site the listing page has
  two summaries, and the call returns \<open>None\<close>, not 2.
\<close>

theorem total_reported_counterexample:
  "length (parse_listing_page site_404 1) = 2 \<and>
   returned (scrape_hespress site_404 [] 1 1) \<noteq> Some 2"
  by (simp add: example_summaries scrape_hespress_def Let_def)

section \<open>The table during a run\<close>

lemma insert_query_prefix: "prefix db (insert_query db a)"
  by (simp add: insert_query_def)

lemma insert_query_covers:
  "postid a \<in> set (map postid (insert_query db a)) \<or>
   article_url a \<in> set (map article_url (insert_query db a))"
  by (simp add: insert_query_def)

lemma insert_query_known:
  "postid a \<in> set (map postid db) \<or> article_url a \<in> set (map article_url db) \<Longrightarrow>
   insert_query db a = db"
  by (auto simp: insert_query_def)

lemma insert_query_distinct:
  "distinct (map postid db) \<Longrightarrow> distinct (map postid (insert_query db a))"
  by (simp add: insert_query_def)

lemma insert_query_cases: "insert_query db a = db \<or> insert_query db a = db @ [a]"
  by (simp add: insert_query_def)

lemma article_data_key [simp]:
  "postid (article_data W sm d) = s_postid sm"
  "article_url (article_data W sm d) = s_article_url sm"
  by (simp_all add: article_data_def Let_def)

lemma covered_mono: "prefix db db' \<Longrightarrow> covered db sm \<Longrightarrow> covered db' sm"
  by (auto simp: covered_def prefix_def)

text \<open>
  One summary: the table stays, or the store takes the row built for the summary. With a
  store that never raises the summary is covered afterwards.
\<close>

lemma scrape_summary_rows:
  "rows (scrape_summary W sm st) = rows st \<or>
   rows (scrape_summary W sm st) =
     insert_query (rows st) (article_data W sm (parse_article_content W (s_article_url sm)))"
  by (simp add: scrape_summary_def store_defs Let_def split: prod.splits)

lemma scrape_summary_prefix: "prefix (rows st) (rows (scrape_summary W sm st))"
  using scrape_summary_rows [of W sm st] by (auto simp: insert_query_prefix)

lemma scrape_summary_covers:
  assumes "\<forall>n. w_store W n"
  shows "covered (rows (scrape_summary W sm st)) sm"
proof -
  let ?a = "article_data W sm (parse_article_content W (s_article_url sm))"
  from assms have "rows (scrape_summary W sm st) = insert_query (rows st) ?a \<or>
      s_postid sm \<in> set (map postid (rows (scrape_summary W sm st)))"
    by (simp add: scrape_summary_def store_defs Let_def split: prod.splits)
  then show ?thesis
    using insert_query_covers [of ?a "rows st"] by (auto simp: covered_def)
qed

lemma scrape_summary_same:
  "covered (rows st) sm \<Longrightarrow> rows (scrape_summary W sm st) = rows st"
  using scrape_summary_rows [of W sm st] by (auto simp: covered_def insert_query_known)

lemma scrape_summary_distinct:
  "distinct (map postid (rows st)) \<Longrightarrow> distinct (map postid (rows (scrape_summary W sm st)))"
  using scrape_summary_rows [of W sm st] by (auto simp: insert_query_distinct)

lemma scrape_summaries_prefix: "prefix (rows st) (rows (scrape_summaries W sms st))"
proof (induction sms arbitrary: st)
  case Nil
  then show ?case by simp
next
  case (Cons sm sms)
  have "prefix (rows st) (rows (scrape_summary W sm st))" by (rule scrape_summary_prefix)
  also have "prefix \<dots> (rows (scrape_summaries W sms (scrape_summary W sm st)))" by (rule Cons.IH)
  finally show ?case by simp
qed

lemma scrape_summaries_covers:
  assumes up: "\<forall>n. w_store W n"
  shows "sm \<in> set sms \<Longrightarrow> covered (rows (scrape_summaries W sms st)) sm"
proof (induction sms arbitrary: st)
  case Nil
  then show ?case by simp
next
  case (Cons x sms)
  show ?case
  proof (cases "sm \<in> set sms")
    case True
    then show ?thesis by (simp add: Cons.IH)
  next
    case False
    with Cons.prems have "sm = x" by simp
    then have "covered (rows (scrape_summary W x st)) sm"
      using up by (simp add: scrape_summary_covers)
    with scrape_summaries_prefix [of "scrape_summary W x st" W sms] show ?thesis
      by (simp add: covered_mono)
  qed
qed

lemma scrape_summaries_same:
  "\<forall>sm \<in> set sms. covered (rows st) sm \<Longrightarrow> rows (scrape_summaries W sms st) = rows st"
  by (induction sms arbitrary: st) (simp_all add: scrape_summary_same)

lemma scrape_summaries_distinct:
  "distinct (map postid (rows st)) \<Longrightarrow> distinct (map postid (rows (scrape_summaries W sms st)))"
  by (induction sms arbitrary: st) (simp_all add: scrape_summary_distinct)

lemma scrape_pages_prefix: "prefix (rows st) (rows (scrape_pages W ps st))"
proof (induction ps arbitrary: st)
  case Nil
  then show ?case by simp
next
  case (Cons n ps)
  let ?st1 = "st\<lparr>listing_requests := listing_requests st @ [n]\<rparr>"
  let ?st2 = "scrape_summaries W (parse_listing_page W n)
      (?st1\<lparr>total_articles_fetched :=
         total_articles_fetched ?st1 + length (parse_listing_page W n)\<rparr>)"
  have "prefix (rows st) (rows ?st2)"
    using scrape_summaries_prefix [of "?st1\<lparr>total_articles_fetched :=
         total_articles_fetched ?st1 + length (parse_listing_page W n)\<rparr>" W "parse_listing_page W n"]
    by simp
  moreover have "prefix (rows ?st2) (rows (scrape_pages W ps ?st2))" by (rule Cons.IH)
  moreover have "prefix (rows st) (rows (scrape_pages W ps ?st1))"
    using Cons.IH [of ?st1] by simp
  ultimately show ?case by (auto simp: Let_def intro: prefix_order.order_trans)
qed

lemma scrape_pages_covers:
  assumes up: "\<forall>n. w_store W n"
  shows "n \<in> set ps \<Longrightarrow> sm \<in> set (parse_listing_page W n) \<Longrightarrow>
   covered (rows (scrape_pages W ps st)) sm"
proof (induction ps arbitrary: st)
  case Nil
  then show ?case by simp
next
  case (Cons x ps)
  let ?st1 = "st\<lparr>listing_requests := listing_requests st @ [x]\<rparr>"
  let ?st2 = "scrape_summaries W (parse_listing_page W x)
      (?st1\<lparr>total_articles_fetched :=
         total_articles_fetched ?st1 + length (parse_listing_page W x)\<rparr>)"
  show ?case
  proof (cases "n \<in> set ps")
    case True
    with Cons.prems(2) show ?thesis by (simp add: Let_def Cons.IH)
  next
    case False
    with Cons.prems have x: "n = x" by simp
    with Cons.prems(2) have ne: "parse_listing_page W x \<noteq> []" by auto
    from x Cons.prems(2) have "covered (rows ?st2) sm"
      using up by (simp add: scrape_summaries_covers)
    with scrape_pages_prefix [of ?st2 W ps] have "covered (rows (scrape_pages W ps ?st2)) sm"
      by (rule covered_mono)
    with ne show ?thesis by (simp add: Let_def)
  qed
qed

lemma scrape_pages_same:
  "\<forall>n \<in> set ps. \<forall>sm \<in> set (parse_listing_page W n). covered (rows st) sm \<Longrightarrow>
   rows (scrape_pages W ps st) = rows st"
proof (induction ps arbitrary: st)
  case Nil
  then show ?case by simp
next
  case (Cons x ps)
  let ?st1 = "st\<lparr>listing_requests := listing_requests st @ [x]\<rparr>"
  let ?st1' = "?st1\<lparr>total_articles_fetched :=
         total_articles_fetched ?st1 + length (parse_listing_page W x)\<rparr>"
  let ?st2 = "scrape_summaries W (parse_listing_page W x) ?st1'"
  from Cons.prems have "rows ?st2 = rows st"
    using scrape_summaries_same [of "parse_listing_page W x" ?st1' W] by simp
  moreover from this Cons.prems have "rows (scrape_pages W ps ?st2) = rows ?st2"
    by (intro Cons.IH) simp
  moreover from Cons.prems have "rows (scrape_pages W ps ?st1) = rows ?st1"
    by (intro Cons.IH) simp
  ultimately show ?case by (simp add: Let_def)
qed

lemma scrape_pages_distinct:
  "distinct (map postid (rows st)) \<Longrightarrow> distinct (map postid (rows (scrape_pages W ps st)))"
  by (induction ps arbitrary: st) (simp_all add: Let_def scrape_summaries_distinct)

lemma distinct_filter_le_1:
  "distinct (map f xs) \<Longrightarrow> length (filter (\<lambda>r. f r = k) xs) \<le> 1"
proof (induction xs)
  case Nil
  then show ?case by simp
next
  case (Cons x xs)
  show ?case
  proof (cases "f x = k")
    case True
    with Cons.prems have "filter (\<lambda>r. f r = k) xs = []"
      by (force simp: filter_empty_conv image_iff)
    with True show ?thesis by simp
  next
    case False
    with Cons show ?thesis by simp
  qed
qed

lemma parse_listing_page_store [simp]:
  "parse_listing_page (W\<lparr>w_store := up\<rparr>) n = parse_listing_page W n"
  by (simp add: parse_listing_page_def split: response.splits)

text \<open>
  Two runs over the same pages of the same site: when no use of the store raised in the
  first, the second adds no row, however the store behaves in it.
\<close>

lemma scrape_hespress_twice:
  assumes up: "\<forall>n. w_store W n"
  shows "rows (final (scrape_hespress (W\<lparr>w_store := up2\<rparr>)
           (rows (final (scrape_hespress W db s e))) s e)) =
         rows (final (scrape_hespress W db s e))"
proof -
  let ?W = "W\<lparr>w_store := up2\<rparr>"
  let ?ps = "if s > e then rev [e..s] else [s..e]"
  let ?st = "\<lambda>d. \<lparr>rows = d, listing_requests = [], article_requests = [],
      total_articles_fetched = 0, store_calls = 0\<rparr>"
  let ?db1 = "rows (scrape_pages W ?ps (create_table W (?st db)))"
  have "\<forall>n \<in> set ?ps. \<forall>sm \<in> set (parse_listing_page ?W n).
      covered (rows (create_table ?W (?st ?db1))) sm"
    using scrape_pages_covers [OF up, of _ ?ps _ "create_table W (?st db)"] by simp
  then have "rows (scrape_pages ?W ?ps (create_table ?W (?st ?db1))) =
      rows (create_table ?W (?st ?db1))"
    by (rule scrape_pages_same)
  then show ?thesis unfolding scrape_hespress_pages by simp
qed

lemmas run_eval = scrape_hespress_pages Let_def scrape_summary_def store_defs
  insert_query_def article_data_def parse_arabic_date_def MOROCCAN_MONTHS_MAP_def replace_def

lemma example_store [simp]:
  "w_store site_200 n" "w_store site_404 n" "\<not> w_store (store_down W) n"
  "site_200\<lparr>w_store := w_store (store_down site_200)\<rparr> = store_down site_200"
  "parse_listing_page (store_down W) k = parse_listing_page W k"
  "parse_article_content (store_down W) u = parse_article_content W u"
  by (simp_all add: site_200_def site_404_def store_down_def parse_listing_page_def
      parse_article_content_def split: response.splits)

lemma example_run_404:
  "rows (final (scrape_hespress site_404 [] 1 1)) =
     [\<lparr>postid = ascii ''1'', article_url = ascii ''/a-1.html'',
       category = Some (ascii ''news''), title = ascii ''title'',
       date_text_ar = Some (ascii ''listed''), date = None, author = [], content = [],
       featured_image = [], tags = []\<rparr>,
      \<lparr>postid = [], article_url = ascii ''/b.html'',
       category = Some (ascii ''news''), title = ascii ''title'',
       date_text_ar = Some (ascii ''listed''), date = None, author = [], content = [],
       featured_image = [], tags = []\<rparr>]"
  "article_requests (final (scrape_hespress site_404 [] 1 1)) = [ascii ''/a-1.html'', ascii ''/b.html'']"
  by (simp_all add: run_eval example_summaries) (simp_all add: site_eval)

lemma example_run_200:
  "map postid (rows (final (scrape_hespress site_200 [] 1 1))) = [ascii ''1'', []]"
  "map article_url (rows (final (scrape_hespress site_200 [] 1 1))) =
     [ascii ''/a-1.html'', ascii ''/b.html'']"
  "map date_text_ar (rows (final (scrape_hespress site_200 [] 1 1))) =
     [Some (ascii ''dated''), Some (ascii ''dated'')]"
  by (simp_all add: run_eval example_summaries) (simp_all add: site_eval)

lemma example_run_down:
  "rows (final (scrape_hespress (store_down site_200) db 1 1)) = db"
  by (simp add: run_eval example_summaries)

lemma example_second_run:
  "article_requests (final (scrape_hespress site_200
      (rows (final (scrape_hespress site_200 [] 1 1))) 1 1)) = [ascii ''/b.html'']"
proof -
  obtain r1 r2 where r: "rows (final (scrape_hespress site_200 [] 1 1)) = [r1, r2]"
    "postid r1 = ascii ''1''" "postid r2 = []"
    using example_run_200(1) by (auto simp: map_eq_Cons_conv)
  show ?thesis
    unfolding r(1) using r(2,3) by (simp add: run_eval example_summaries ascii_def)
qed

text \<open>
  C3, as the code has it. When no use of the store raised during the first run, a second
  run over the same pages of the same site leaves the table as the first run left it,
  however the store behaves during the second. A summary whose \<open>postid\<close> is not empty and
  is found in the table is passed over with no request for its article page and no change
  of the table; and a row whose \<open>postid\<close> is in the table is dropped by the store.
\<close>

theorem second_run_adds_nothing:
  "((\<forall>n. w_store W n) \<longrightarrow>
      rows (final (scrape_hespress (W\<lparr>w_store := up2\<rparr>)
        (rows (final (scrape_hespress W db s e))) s e)) =
      rows (final (scrape_hespress W db s e))) \<and>
   (s_postid sm \<noteq> [] \<and> s_postid sm \<in> set (map postid (rows st)) \<and> w_store W (store_calls st) \<longrightarrow>
      rows (scrape_summary W sm st) = rows st \<and>
      article_requests (scrape_summary W sm st) = article_requests st) \<and>
   (postid a \<in> set (map postid (rows st')) \<longrightarrow> rows (insert_article W a st') = rows st')"
  by (simp add: scrape_hespress_twice scrape_summary_def store_defs insert_query_def)

theorem second_run_adds_nothing_witness:
  "(\<forall>n. w_store site_200 n) \<and>
   rows (final (scrape_hespress (store_down site_200)
     (rows (final (scrape_hespress site_200 [] 1 1))) 1 1)) =
     rows (final (scrape_hespress site_200 [] 1 1)) \<and>
   map postid (rows (final (scrape_hespress site_200 [] 1 1))) = [ascii ''1'', []] \<and>
   s_postid (hd (parse_listing_page site_200 1)) \<noteq> [] \<and>
   s_postid (hd (parse_listing_page site_200 1)) \<in>
     set (map postid (rows (final (scrape_hespress site_200 [] 1 1)))) \<and>
   w_store site_200 (store_calls (final (scrape_hespress site_200 [] 1 1))) \<and>
   rows (scrape_summary site_200 (hd (parse_listing_page site_200 1))
     (final (scrape_hespress site_200 [] 1 1))) = rows (final (scrape_hespress site_200 [] 1 1)) \<and>
   article_requests (scrape_summary site_200 (hd (parse_listing_page site_200 1))
     (final (scrape_hespress site_200 [] 1 1))) =
     article_requests (final (scrape_hespress site_200 [] 1 1)) \<and>
   postid (hd (rows (final (scrape_hespress site_200 [] 1 1)))) \<in>
     set (map postid (rows (final (scrape_hespress site_200 [] 1 1)))) \<and>
   rows (insert_article site_200 (hd (rows (final (scrape_hespress site_200 [] 1 1))))
     (final (scrape_hespress site_200 [] 1 1))) = rows (final (scrape_hespress site_200 [] 1 1))"
proof -
  let ?st = "final (scrape_hespress site_200 [] 1 1)"
  let ?sm = "hd (parse_listing_page site_200 1)"
  have u: "\<forall>n. w_store site_200 n" by simp
  have p: "map postid (rows ?st) = [ascii ''1'', []]" by (rule example_run_200)
  have a: "s_postid ?sm \<noteq> []" "s_postid ?sm \<in> set (map postid (rows ?st))"
    unfolding p by (simp_all add: example_summaries ascii_def)
  have c: "w_store site_200 (store_calls ?st)" by simp
  from p have b: "postid (hd (rows ?st)) \<in> set (map postid (rows ?st))"
    by (cases "rows ?st") auto
  from u a b c p
    second_run_adds_nothing [where W = site_200 and ?up2.0 = "w_store (store_down site_200)"
      and db = "[]" and s = 1 and e = 1 and sm = ?sm and st = ?st and a = "hd (rows ?st)"
      and st' = ?st]
  show ?thesis by simp
qed

text \<open>
  C3 as the specification words it fails in two ways. With the site unchanged, a first
  run during which the store raises leaves the table empty, and a second run then adds
  two rows, so two runs do not leave what one run left. And on the second of two runs
  with a store that never raises, the summary whose \<open>postid\<close> is empty is not passed
  over, although the table has a row with that \<open>postid\<close>: its article page is requested
  again.
\<close>

theorem second_run_adds_nothing_counterexample:
  "rows (final (scrape_hespress (store_down site_200) [] 1 1)) = [] \<and>
   map postid (rows (final (scrape_hespress site_200
     (rows (final (scrape_hespress (store_down site_200) [] 1 1))) 1 1))) = [ascii ''1'', []] \<and>
   [] \<in> set (map postid (rows (final (scrape_hespress site_200 [] 1 1)))) \<and>
   article_requests (final (scrape_hespress site_200
     (rows (final (scrape_hespress site_200 [] 1 1))) 1 1)) = [ascii ''/b.html'']"
  by (simp add: example_run_down example_run_200 example_second_run)

text \<open>
  C9: an empty \<open>postid\<close> is never found by \<open>article_exists\<close>, which does not even use the
  store for it; the \<open>postid\<close> of a summary is what \<open>extract_post_id_from_url\<close> gives for
  its URL; for a summary with an empty \<open>postid\<close> the article page is always requested and
  a row with the empty \<open>postid\<close> is handed to \<open>insert_article\<close>; a table with distinct
  \<open>postid\<close>s has at most one row with the empty \<open>postid\<close> after any run; and once there is
  one, every further such row is dropped.
\<close>

theorem empty_postid_articles:
  "article_exists W [] st = (False, st) \<and>
   (sm \<in> set (parse_listing_page W n) \<longrightarrow>
      s_postid sm = extract_post_id_from_url (w_decimal W) (s_article_url sm)) \<and>
   (s_postid sm = [] \<longrightarrow>
      scrape_summary W sm st =
        insert_article W (article_data W sm (parse_article_content W (s_article_url sm)))
          (st\<lparr>article_requests := article_requests st @ [s_article_url sm]\<rparr>) \<and>
      article_requests (scrape_summary W sm st) = article_requests st @ [s_article_url sm] \<and>
      postid (article_data W sm (parse_article_content W (s_article_url sm))) = []) \<and>
   (distinct (map postid db) \<longrightarrow>
      length (filter (\<lambda>r. postid r = []) (rows (final (scrape_hespress W db s e)))) \<le> 1) \<and>
   (postid a = [] \<and> [] \<in> set (map postid (rows st')) \<longrightarrow>
      rows (insert_article W a st') = rows st')"
proof (intro conjI impI)
  show "article_exists W [] st = (False, st)" by (simp add: article_exists_def)
next
  assume "sm \<in> set (parse_listing_page W n)"
  then show "s_postid sm = extract_post_id_from_url (w_decimal W) (s_article_url sm)"
    by (rule parse_listing_page_postid)
next
  assume "distinct (map postid db)"
  then have "distinct (map postid (rows (final (scrape_hespress W db s e))))"
    unfolding scrape_hespress_pages by (intro scrape_pages_distinct) simp
  then show "length (filter (\<lambda>r. postid r = []) (rows (final (scrape_hespress W db s e)))) \<le> 1"
    by (rule distinct_filter_le_1)
next
  assume "postid a = [] \<and> [] \<in> set (map postid (rows st'))"
  then show "rows (insert_article W a st') = rows st'"
    by (simp add: store_defs insert_query_def)
qed (simp_all add: scrape_summary_def store_defs Let_def)

theorem empty_postid_articles_witness:
  "hd (tl (parse_listing_page site_404 1)) \<in> set (parse_listing_page site_404 1) \<and>
   s_postid (hd (tl (parse_listing_page site_404 1))) = [] \<and>
   extract_post_id_from_url (w_decimal site_404) (ascii ''/b.html'') = [] \<and>
   article_requests (scrape_summary site_404 (hd (tl (parse_listing_page site_404 1)))
     (final (scrape_hespress site_404 [] 1 1))) =
     [ascii ''/a-1.html'', ascii ''/b.html'', ascii ''/b.html''] \<and>
   distinct (map postid ([] :: article list)) \<and>
   length (filter (\<lambda>r. postid r = []) (rows (final (scrape_hespress site_404 [] 1 1)))) \<le> 1 \<and>
   postid (hd (tl (rows (final (scrape_hespress site_404 [] 1 1))))) = [] \<and>
   [] \<in> set (map postid (rows (final (scrape_hespress site_404 [] 1 1)))) \<and>
   rows (insert_article site_404 (hd (tl (rows (final (scrape_hespress site_404 [] 1 1)))))
     (final (scrape_hespress site_404 [] 1 1))) =
     rows (final (scrape_hespress site_404 [] 1 1))"
proof -
  let ?sm = "hd (tl (parse_listing_page site_404 1))"
  let ?st = "final (scrape_hespress site_404 [] 1 1)"
  have a: "?sm \<in> set (parse_listing_page site_404 1)" "s_postid ?sm = []"
    "s_article_url ?sm = ascii ''/b.html''"
    by (simp_all add: example_summaries)
  have b: "postid (hd (tl (rows ?st))) = []" "[] \<in> set (map postid (rows ?st))"
    by (simp_all add: example_run_404)
  have c: "distinct (map postid ([] :: article list))" by simp
  have d: "extract_post_id_from_url (w_decimal site_404) (ascii ''/b.html'') = []"
    by (simp add: site_404_def url_eval)
  note t = empty_postid_articles [where W = site_404 and st = ?st and sm = ?sm and n = 1
      and db = "[]" and s = 1 and e = 1 and a = "hd (tl (rows ?st))" and st' = ?st]
  from t a(2) have x: "article_requests (scrape_summary site_404 ?sm ?st) =
      article_requests ?st @ [s_article_url ?sm]"
    by blast
  from t c have y: "length (filter (\<lambda>r. postid r = []) (rows ?st)) \<le> 1" by blast
  from t b have z: "rows (insert_article site_404 (hd (tl (rows ?st))) ?st) = rows ?st"
    by blast
  from a b c d x y z example_run_404(2) show ?thesis by simp
qed

text \<open>
  C7: when the article page is fetched and carries a date text, the row built for the
  article has that text, whatever the listing page gave. It is the only row that
  processing the summary can add to the table, and it is added when neither its \<open>postid\<close>
  nor its \<open>article_url\<close> is there yet and the insert reaches the store.
\<close>

theorem detail_date_first:
  "parse_article_content W (s_article_url sm) = Some dt \<and> d_date_text_ar dt \<noteq> [] \<longrightarrow>
     date_text_ar (article_data W sm (parse_article_content W (s_article_url sm))) =
       Some (d_date_text_ar dt) \<and>
     (rows (scrape_summary W sm st) = rows st \<or>
      rows (scrape_summary W sm st) =
        rows st @ [article_data W sm (parse_article_content W (s_article_url sm))]) \<and>
     (s_postid sm \<notin> set (map postid (rows st)) \<and>
      s_article_url sm \<notin> set (map article_url (rows st)) \<and>
      fst (get_connection W (snd (article_exists W (s_postid sm) st))) \<longrightarrow>
        rows (scrape_summary W sm st) =
          rows st @ [article_data W sm (parse_article_content W (s_article_url sm))])"
proof (intro impI conjI)
  assume h: "parse_article_content W (s_article_url sm) = Some dt \<and> d_date_text_ar dt \<noteq> []"
  then show "date_text_ar (article_data W sm (parse_article_content W (s_article_url sm))) =
      Some (d_date_text_ar dt)"
    by (simp add: article_data_def Let_def)
  show "rows (scrape_summary W sm st) = rows st \<or>
      rows (scrape_summary W sm st) =
        rows st @ [article_data W sm (parse_article_content W (s_article_url sm))]"
    using scrape_summary_rows [of W sm st]
      insert_query_cases [of "rows st" "article_data W sm (parse_article_content W (s_article_url sm))"]
    by auto
next
  assume "s_postid sm \<notin> set (map postid (rows st)) \<and>
      s_article_url sm \<notin> set (map article_url (rows st)) \<and>
      fst (get_connection W (snd (article_exists W (s_postid sm) st)))"
  then show "rows (scrape_summary W sm st) =
      rows st @ [article_data W sm (parse_article_content W (s_article_url sm))]"
    by (cases "s_postid sm = []")
      (simp_all add: scrape_summary_def store_defs insert_query_def Let_def)
qed

theorem detail_date_first_witness:
  "parse_article_content site_200 (s_article_url (hd (parse_listing_page site_200 1))) =
     Some \<lparr>d_author = ascii ''me'', d_content = ascii ''body'', d_featured_image = [],
           d_date_text_ar = ascii ''dated'', d_tags = []\<rparr> \<and>
   ascii ''dated'' \<noteq> [] \<and>
   s_date_text_ar (hd (parse_listing_page site_200 1)) = Some (ascii ''listed'') \<and>
   date_text_ar (article_data site_200 (hd (parse_listing_page site_200 1))
      (parse_article_content site_200 (s_article_url (hd (parse_listing_page site_200 1))))) =
     Some (ascii ''dated'') \<and>
   map date_text_ar (rows (scrape_summary site_200 (hd (parse_listing_page site_200 1))
      \<lparr>rows = [], listing_requests = [], article_requests = [], total_articles_fetched = 0,
       store_calls = 0\<rparr>)) =
     [Some (ascii ''dated'')]"
proof -
  let ?sm = "hd (parse_listing_page site_200 1)"
  let ?dt = "\<lparr>d_author = ascii ''me'', d_content = ascii ''body'', d_featured_image = [],
           d_date_text_ar = ascii ''dated'', d_tags = []\<rparr>"
  let ?st = "\<lparr>rows = [], listing_requests = [], article_requests = [],
      total_articles_fetched = 0, store_calls = 0\<rparr>"
  have a: "parse_article_content site_200 (s_article_url ?sm) = Some ?dt"
    by (simp add: site_eval)
  have b: "ascii ''dated'' \<noteq> []" by (simp add: ascii_def)
  have c: "s_date_text_ar ?sm = Some (ascii ''listed'')"
    by (simp add: example_summaries)
  have d: "fst (get_connection site_200 (snd (article_exists site_200 (s_postid ?sm) ?st)))"
    by (simp add: store_defs split: prod.splits)
  from a b c d detail_date_first [of site_200 ?sm ?dt ?st]
  show ?thesis by simp
qed

text \<open>
  C1 does not hold of the code. On the first example site every article page answers
  404; \<open>parse_article_content\<close> returns no detail, no exception leaves the run and both
  articles are processed, but for each of them a row is written, with the fields of the
  listing page and empty author, content, image and tags.
\<close>

theorem failed_detail_fetch_is_stored:
  "parse_article_content site_404 (ascii ''/a-1.html'') = None \<and>
   article_requests (final (scrape_hespress site_404 [] 1 1)) =
     [ascii ''/a-1.html'', ascii ''/b.html''] \<and>
   rows (final (scrape_hespress site_404 [] 1 1)) =
     [\<lparr>postid = ascii ''1'', article_url = ascii ''/a-1.html'',
       category = Some (ascii ''news''), title = ascii ''title'',
       date_text_ar = Some (ascii ''listed''), date = None, author = [], content = [],
       featured_image = [], tags = []\<rparr>,
      \<lparr>postid = [], article_url = ascii ''/b.html'',
       category = Some (ascii ''news''), title = ascii ''title'',
       date_text_ar = Some (ascii ''listed''), date = None, author = [], content = [],
       featured_image = [], tags = []\<rparr>]"
  using example_run_404 by (simp add: site_eval)

end
